theory Spec2Isabelle
  imports Main
begin

section \<open>The handshake pipeline of src/core/handshaker/handshaker.cc\<close>

text \<open>
  The development embeds \<^verbatim>\<open>HandshakeManager\<close> and \<^verbatim>\<open>Handshaker::InvokeOnHandshakeDone\<close>.
  Every member function runs under the manager's mutex \<^verbatim>\<open>mu_\<close>, so each call is one atomic
  transition of the manager. A call on an external collaborator (a handshaker, the event
  engine, the channelz trace node) is not executed by the manager: it is recorded, in
  program order, as an \<open>action\<close> the transition emits. The environment (handshakers
  calling their continuation, the event engine running posted closures and the deadline
  timer, the caller) is a list of events applied to a \<open>world\<close>.

  The debugging output of \<^verbatim>\<open>GRPC_TRACE_LOG\<close> has no effect on the manager and is left out.
\<close>

subsection \<open>Values\<close>

text \<open>
  \<^verbatim>\<open>absl::Status\<close>: ok, or an error with its message. \<^verbatim>\<open>GRPC_ERROR_CREATE(msg)\<close> builds
  the error status with message \<open>msg\<close>.
\<close>

datatype status = OkStatus | ErrorStatus string

fun ok :: "status \<Rightarrow> bool" where
  "ok OkStatus = True"
| "ok (ErrorStatus msg) = False"

text \<open>
  Objects the manager only holds or passes on are identified by a number: the byte
  endpoint, a callback object (\<^verbatim>\<open>absl::AnyInvocable\<close>), the handle of a timer task.
  A handshaker is identified by its \<^verbatim>\<open>name()\<close>.
\<close>

type_synonym grpc_endpoint = nat
type_synonym callback = nat
type_synonym task_handle = nat
type_synonym handshaker = string

text \<open>
  \<^verbatim>\<open>HandshakerArgs\<close>. \<open>endpoint\<close> is an \<^verbatim>\<open>OrphanablePtr\<close>: \<open>None\<close> is the null pointer.
  The channel arguments, the event engine pointer and the acceptor pointer are never
  changed after \<^verbatim>\<open>DoHandshake\<close> stored them and decide nothing below. The trace node
  is a collaborator: calls on it are actions.
\<close>

record handshaker_args =
  endpoint :: "grpc_endpoint option"
  read_buffer :: "nat list"
  deadline :: int
  exit_early :: bool

text \<open>\<^verbatim>\<open>grpc_tcp_server_acceptor\<close>, as far as \<^verbatim>\<open>DoHandshake\<close> reads it.\<close>

record acceptor =
  external_connection :: bool
  pending_data :: "nat list option"

text \<open>
  \<^verbatim>\<open>absl::StatusOr<HandshakerArgs*>\<close>: the pointer \<^verbatim>\<open>&args_\<close> to the manager's own
  arguments, or a non-ok status.
\<close>

datatype handshake_result = Args_ptr | Failure status

subsection \<open>Closures posted to the event engine\<close>

text \<open>
  \<open>Done_closure\<close> is the lambda of \<^verbatim>\<open>Handshaker::InvokeOnHandshakeDone\<close> with its two
  captures, \<open>Terminal_closure\<close> the lambda of the terminal branch of
  \<^verbatim>\<open>CallNextHandshakerLocked\<close>. The captured callback was moved out of a variable that
  may be empty (\<open>None\<close>).
\<close>

datatype closure =
    Done_closure "callback option" status
  | Terminal_closure "callback option" handshake_result

datatype trace_msg =
    Shutdown_called status
  | Shutting_down_handshaker_at nat
  | Failed_with_error status
  | Calling_handshaker handshaker nat

datatype action =
    Hs_DoHandshake handshaker
  | Hs_Shutdown handshaker status
  | Engine_RunAfter task_handle
  | Engine_Cancel "task_handle option"
  | Engine_Run closure
  | Endpoint_destroy grpc_endpoint
  | Trace_New
  | Trace_Log trace_msg
  | Trace_Commit
  | ExecCtx_enter
  | Call_continuation callback status
  | Call_on_handshake_done callback handshake_result
  | Destroy_callback callback
  | ExecCtx_exit

datatype fault =
    Check_failed
  | Out_of_range
  | Empty_callback
  | No_continuation
  | No_such_task

text \<open>
  The body of a posted closure, run by the event engine: an \<^verbatim>\<open>ExecCtx\<close> is constructed,
  the callback is called with the captured value, the callback is destroyed by the
  assignment of \<^verbatim>\<open>nullptr\<close>, and the \<^verbatim>\<open>ExecCtx\<close> goes out of scope. Calling an empty
  \<^verbatim>\<open>AnyInvocable\<close> is undefined; it is the fault \<open>Empty_callback\<close>.
\<close>

fun run_closure :: "closure \<Rightarrow> fault + action list" where
  "run_closure (Done_closure None st) = Inl Empty_callback"
| "run_closure (Done_closure (Some cb) st) =
     Inr [ExecCtx_enter, Call_continuation cb st, Destroy_callback cb, ExecCtx_exit]"
| "run_closure (Terminal_closure None res) = Inl Empty_callback"
| "run_closure (Terminal_closure (Some cb) res) =
     Inr [ExecCtx_enter, Call_on_handshake_done cb res, Destroy_callback cb, ExecCtx_exit]"

subsection \<open>Handshaker::InvokeOnHandshakeDone\<close>

text \<open>
  Modelled from the spec: the event engine (\<^verbatim>\<open>EventEngine::Run\<close>, \<^verbatim>\<open>RunAfter\<close>,
  \<^verbatim>\<open>Cancel\<close>) is not part of the sources; \<^verbatim>\<open>Run(task)\<close> is an asynchronous post, so it
  appends the closure to the engine's queue and runs nothing.

  \<^verbatim>\<open>InvokeOnHandshakeDone\<close> returns the actions it performs on the caller's stack and
  leaves the caller's callback variable moved-from.
\<close>

record event_engine =
  posted :: "closure list"

definition Run :: "closure \<Rightarrow> event_engine \<Rightarrow> event_engine" where
  "Run c e = e\<lparr>posted := posted e @ [c]\<rparr>"

definition InvokeOnHandshakeDone ::
  "callback option \<Rightarrow> status \<Rightarrow> event_engine \<Rightarrow> event_engine \<times> action list" where
  "InvokeOnHandshakeDone on_handshake_done st e =
     (Run (Done_closure on_handshake_done st) e, [Engine_Run (Done_closure on_handshake_done st)])"

subsection \<open>HandshakeManager\<close>

record manager =
  handshakers :: "handshaker list"
  index :: nat
  is_shutdown :: bool
  on_handshake_done :: "callback option"
  deadline_timer_handle :: "task_handle option"
  args :: handshaker_args

text \<open>
  Modelled from the spec: the member initialisers are in handshaker.h, which is not part
  of the sources. The cursor starts at 0, the latch at false, the list is empty.
\<close>

definition HandshakeManager :: manager where
  "HandshakeManager =
     \<lparr>handshakers = [], index = 0, is_shutdown = False, on_handshake_done = None,
      deadline_timer_handle = None,
      args = \<lparr>endpoint = None, read_buffer = [], deadline = 0, exit_early = False\<rparr>\<rparr>"

definition Add :: "handshaker \<Rightarrow> manager \<Rightarrow> manager" where
  "Add h m = m\<lparr>handshakers := handshakers m @ [h]\<rparr>"

text \<open>
  \<^verbatim>\<open>index_\<close> is a \<^verbatim>\<open>size_t\<close>. It is only incremented where it is below
  \<^verbatim>\<open>handshakers_.size()\<close>, so it never wraps and a natural number holds it.

  Giving up an owned endpoint (\<^verbatim>\<open>reset()\<close>, or move-assignment over it) destroys it;
  on a null pointer nothing happens.
\<close>

fun destroy :: "grpc_endpoint option \<Rightarrow> action list" where
  "destroy None = []"
| "destroy (Some ep) = [Endpoint_destroy ep]"

definition CallNextHandshakerLocked ::
  "status \<Rightarrow> manager \<Rightarrow> fault + manager \<times> action list" where
  "CallNextHandshakerLocked error m =
     (if \<not> index m \<le> length (handshakers m) then Inl Check_failed
      else if \<not> ok error \<or> is_shutdown m \<or> exit_early (args m) \<or>
              index m = length (handshakers m) then
        (let shut = ok error \<and> is_shutdown m;
             error' = (if shut then ErrorStatus ''handshaker shutdown'' else error);
             args' = (if shut then (args m)\<lparr>endpoint := None\<rparr> else args m);
             result = (if \<not> ok error' then Failure error' else Args_ptr)
         in Inr (m\<lparr>args := args', is_shutdown := True, on_handshake_done := None\<rparr>,
                 (if shut then destroy (endpoint (args m)) else []) @
                 (if \<not> ok error' then [Trace_Log (Failed_with_error error')] else []) @
                 [Trace_Commit,
                  Engine_Cancel (deadline_timer_handle m),
                  Engine_Run (Terminal_closure (on_handshake_done m) result)]))
      else
        (let h = handshakers m ! index m
         in Inr (m\<lparr>index := index m + 1\<rparr>,
                 [Trace_Log (Calling_handshaker h (index m)), Hs_DoHandshake h])))"

text \<open>
  \<^verbatim>\<open>handshakers_[index_ - 1]\<close> is not checked by \<^verbatim>\<open>Shutdown\<close>; a subscript out of range
  is the fault \<open>Out_of_range\<close>.
\<close>

definition Shutdown :: "status \<Rightarrow> manager \<Rightarrow> fault + manager \<times> action list" where
  "Shutdown error m =
     (if \<not> is_shutdown m then
        (if index m > 0 then
           (if index m - 1 < length (handshakers m) then
              Inr (m\<lparr>is_shutdown := True\<rparr>,
                   [Trace_Log (Shutdown_called error),
                    Trace_Log (Shutting_down_handshaker_at (index m - 1)),
                    Hs_Shutdown (handshakers m ! (index m - 1)) error])
            else Inl Out_of_range)
         else Inr (m\<lparr>is_shutdown := True\<rparr>, [Trace_Log (Shutdown_called error)]))
      else Inr (m, []))"

text \<open>
  \<open>handle\<close> is what \<^verbatim>\<open>event_engine->RunAfter\<close> returns for the deadline task. The
  pending data of an external connection is swapped into \<^verbatim>\<open>args_.read_buffer\<close>.
\<close>

definition DoHandshake ::
  "grpc_endpoint option \<Rightarrow> int \<Rightarrow> acceptor option \<Rightarrow> callback \<Rightarrow> task_handle \<Rightarrow>
   manager \<Rightarrow> fault + manager \<times> action list" where
  "DoHandshake ep dl acc on_done handle m =
     (if index m \<noteq> 0 then Inl Check_failed
      else
        (let buf = (case acc of
                      None \<Rightarrow> read_buffer (args m)
                    | Some a \<Rightarrow>
                        if external_connection a then
                          (case pending_data a of
                             None \<Rightarrow> read_buffer (args m)
                           | Some d \<Rightarrow> d)
                        else read_buffer (args m));
             m1 = m\<lparr>on_handshake_done := Some on_done,
                    args := (args m)\<lparr>endpoint := ep, deadline := dl, read_buffer := buf\<rparr>,
                    deadline_timer_handle := Some handle\<rparr>
         in case CallNextHandshakerLocked OkStatus m1 of
              Inl f \<Rightarrow> Inl f
            | Inr (m2, acts) \<Rightarrow>
                Inr (m2, destroy (endpoint (args m)) @ [Trace_New, Engine_RunAfter handle] @ acts)))"

subsection \<open>The environment\<close>

text \<open>
  What can happen to a manager, one event per call that takes the mutex, plus the event
  engine running a posted closure:
  \<^item> the caller calls \<^verbatim>\<open>Add\<close>, \<^verbatim>\<open>DoHandshake\<close> or \<^verbatim>\<open>Shutdown\<close>;
  \<^item> the deadline task runs: inside an \<^verbatim>\<open>ExecCtx\<close> it calls
    \<^verbatim>\<open>Shutdown(GRPC_ERROR_CREATE("Handshake timed out"))\<close>. \<^verbatim>\<open>Cancel\<close> may lose the race
    against a task that has begun, so the task may run at any time after a timer was
    armed;
  \<^item> a handshaker that holds a continuation, having left the arguments as \<open>a\<close>, calls it
    with a status. The continuation is a one-shot, move-only callable: calling one
    needs one that was handed out and not yet called;
  \<^item> the event engine runs the \<open>k\<close>-th closure of its queue.

  \<^verbatim>\<open>DoHandshake\<close>, \<^verbatim>\<open>Shutdown\<close> and the continuation call a handshaker while they hold
  \<^verbatim>\<open>mu_\<close> (lines 97, 132 and 191; 136 and 144; 192 and 193). What the handshaker
  does inside that call is its \<open>reaction\<close>: it returns, or, having left the arguments as
  \<open>a\<close>, it calls the continuation it holds before it returns. The continuation starts
  with \<^verbatim>\<open>MutexLock lock(&self->mu_)\<close> on the thread that holds \<^verbatim>\<open>mu_\<close>, and \<^verbatim>\<open>mu_\<close>
  is not reentrant: the thread blocks for ever with \<^verbatim>\<open>mu_\<close> held, and so does every
  later call that takes \<^verbatim>\<open>mu_\<close>.
\<close>

datatype reaction = Returns | Calls_back handshaker_args status

datatype event =
    Ev_Add handshaker
  | Ev_DoHandshake "grpc_endpoint option" int "acceptor option" callback reaction
  | Ev_Shutdown status reaction
  | Ev_Timer reaction
  | Ev_Complete handshaker_args status reaction
  | Ev_Exec nat

text \<open>
  \<open>outstanding\<close> counts the continuations handed to handshakers and not yet called,
  \<open>armed\<close> the timers armed so far (the next handle), \<open>history\<close> holds every action
  in the order it happened, \<open>deadlocked\<close> says that a thread is blocked on \<^verbatim>\<open>mu_\<close>
  while holding it.
\<close>

record world =
  mgr :: manager
  engine :: event_engine
  history :: "action list"
  outstanding :: nat
  armed :: nat
  deadlocked :: bool

fun is_invoke :: "action \<Rightarrow> bool" where
  "is_invoke (Hs_DoHandshake h) = True"
| "is_invoke a = False"

fun is_arm :: "action \<Rightarrow> bool" where
  "is_arm (Engine_RunAfter h) = True"
| "is_arm a = False"

fun posts :: "action list \<Rightarrow> closure list" where
  "posts [] = []"
| "posts (Engine_Run c # as) = c # posts as"
| "posts (a # as) = posts as"

definition effect :: "world \<Rightarrow> manager \<times> action list \<Rightarrow> world" where
  "effect w r =
     w\<lparr>mgr := fst r,
       engine := fold Run (posts (snd r)) (engine w),
       history := history w @ snd r,
       outstanding := outstanding w + length (filter is_invoke (snd r)),
       armed := armed w + length (filter is_arm (snd r))\<rparr>"

definition lift :: "world \<Rightarrow> fault + manager \<times> action list \<Rightarrow> fault + world" where
  "lift w r = (case r of Inl f \<Rightarrow> Inl f | Inr x \<Rightarrow> Inr (effect w x))"

definition enter :: "world \<Rightarrow> world" where
  "enter w = w\<lparr>history := history w @ [ExecCtx_enter]\<rparr>"

text \<open>
  The call of an event with \<^verbatim>\<open>mu_\<close> free, up to the point where the manager's function
  returns; a handshaker called in it is taken to return.
\<close>

fun serve :: "event \<Rightarrow> world \<Rightarrow> fault + world" where
  "serve (Ev_Add h) w = Inr (w\<lparr>mgr := Add h (mgr w)\<rparr>)"
| "serve (Ev_DoHandshake ep dl acc cb r) w =
     lift w (DoHandshake ep dl acc cb (armed w) (mgr w))"
| "serve (Ev_Shutdown e r) w = lift w (Shutdown e (mgr w))"
| "serve (Ev_Timer r) w =
     (if armed w = 0 then Inl No_such_task
      else lift (enter w) (Shutdown (ErrorStatus ''Handshake timed out'') (mgr w)))"
| "serve (Ev_Complete a st r) w =
     (if outstanding w = 0 then Inl No_continuation
      else lift (w\<lparr>outstanding := outstanding w - 1\<rparr>)
             (CallNextHandshakerLocked st ((mgr w)\<lparr>args := a\<rparr>)))"
| "serve (Ev_Exec k) w =
     (let q = posted (engine w)
      in if k < length q then
           (case run_closure (q ! k) of
              Inl f \<Rightarrow> Inl f
            | Inr acts \<Rightarrow>
                Inr (w\<lparr>engine := (engine w)\<lparr>posted := take k q @ drop (Suc k) q\<rparr>,
                       history := history w @ acts\<rparr>))
         else Inl No_such_task)"

text \<open>A call the manager makes on a handshaker.\<close>

fun hs_call :: "action \<Rightarrow> bool" where
  "hs_call (Hs_DoHandshake h) = True"
| "hs_call (Hs_Shutdown h e) = True"
| "hs_call a = False"

fun reaction_of :: "event \<Rightarrow> reaction" where
  "reaction_of (Ev_Add h) = Returns"
| "reaction_of (Ev_DoHandshake ep dl acc cb r) = r"
| "reaction_of (Ev_Shutdown e r) = r"
| "reaction_of (Ev_Timer r) = r"
| "reaction_of (Ev_Complete a st r) = r"
| "reaction_of (Ev_Exec k) = Returns"

text \<open>
  The reaction of the handshaker, given the actions \<open>acts\<close> of the call it happens in.
  Calling back needs the manager to have called a handshaker in \<open>acts\<close> and a
  continuation to be outstanding; the continuation is then used up, and the thread
  blocks in its \<^verbatim>\<open>MutexLock\<close>.
\<close>

fun react :: "reaction \<Rightarrow> action list \<Rightarrow> world \<Rightarrow> world" where
  "react Returns acts w = w"
| "react (Calls_back a st) acts w =
     (if filter hs_call acts \<noteq> [] \<and> 0 < outstanding w then
        w\<lparr>mgr := (mgr w)\<lparr>args := a\<rparr>, outstanding := outstanding w - 1, deadlocked := True\<rparr>
      else w)"

text \<open>The deadline task leaves its \<^verbatim>\<open>ExecCtx\<close> when \<^verbatim>\<open>Shutdown\<close> has returned.\<close>

fun wind_up :: "event \<Rightarrow> world \<Rightarrow> world" where
  "wind_up (Ev_Timer r) w =
     (if deadlocked w then w else w\<lparr>history := history w @ [ExecCtx_exit]\<rparr>)"
| "wind_up e w = w"

text \<open>
  An event while \<^verbatim>\<open>mu_\<close> is held for ever: the calling thread blocks in its
  \<^verbatim>\<open>MutexLock\<close>, the deadline task after it has entered its \<^verbatim>\<open>ExecCtx\<close>, a
  continuation after it has been called. Only the event engine still runs closures.
\<close>

fun blocked :: "event \<Rightarrow> world \<Rightarrow> fault + world" where
  "blocked (Ev_Timer r) w = (if armed w = 0 then Inl No_such_task else Inr (enter w))"
| "blocked (Ev_Complete a st r) w =
     (if outstanding w = 0 then Inl No_continuation
      else Inr (w\<lparr>mgr := (mgr w)\<lparr>args := a\<rparr>, outstanding := outstanding w - 1\<rparr>))"
| "blocked (Ev_Exec k) w = serve (Ev_Exec k) w"
| "blocked e w = Inr w"

definition fire :: "event \<Rightarrow> world \<Rightarrow> fault + world" where
  "fire e w =
     (if deadlocked w then blocked e w
      else case serve e w of
             Inl f \<Rightarrow> Inl f
           | Inr w1 \<Rightarrow>
               Inr (wind_up e (react (reaction_of e) (drop (length (history w)) (history w1)) w1)))"

fun run :: "event list \<Rightarrow> world \<Rightarrow> fault + world" where
  "run [] w = Inr w"
| "run (e # es) w = (case fire e w of Inl f \<Rightarrow> Inl f | Inr w' \<Rightarrow> run es w')"

definition start :: world where
  "start = \<lparr>mgr = HandshakeManager, engine = \<lparr>posted = []\<rparr>, history = [],
            outstanding = 0, armed = 0, deadlocked = False\<rparr>"

subsection \<open>Observations\<close>

text \<open>The condition of the terminal branch, as line 158 of handshaker.cc writes it.\<close>

definition terminal :: "status \<Rightarrow> manager \<Rightarrow> bool" where
  "terminal st m \<longleftrightarrow>
     \<not> ok st \<or> is_shutdown m \<or> exit_early (args m) \<or> index m = length (handshakers m)"

text \<open>Actions on the endpoint and the trace node: no handshaker, no event engine.\<close>

fun silent :: "action \<Rightarrow> bool" where
  "silent (Endpoint_destroy ep) = True"
| "silent Trace_New = True"
| "silent (Trace_Log msg) = True"
| "silent Trace_Commit = True"
| "silent a = False"

definition sent :: "world \<Rightarrow> action list" where
  "sent w = filter hs_call (history w)"

text \<open>
  How often the callback \<open>cb\<close> was requested by the events, was called in the history,
  and is waiting in a posted closure.
\<close>

fun asks :: "callback \<Rightarrow> event \<Rightarrow> bool" where
  "asks cb (Ev_DoHandshake ep dl acc c r) = (c = cb)"
| "asks cb e = False"

fun calls :: "callback \<Rightarrow> action \<Rightarrow> bool" where
  "calls cb (Call_on_handshake_done c res) = (c = cb)"
| "calls cb a = False"

fun carries :: "callback \<Rightarrow> closure \<Rightarrow> bool" where
  "carries cb (Terminal_closure c res) = (c = Some cb)"
| "carries cb c = False"

definition requested :: "callback \<Rightarrow> event list \<Rightarrow> nat" where
  "requested cb evs = length (filter (asks cb) evs)"

definition invoked :: "callback \<Rightarrow> world \<Rightarrow> nat" where
  "invoked cb w = length (filter (calls cb) (history w))"

definition queued :: "callback \<Rightarrow> world \<Rightarrow> nat" where
  "queued cb w = length (filter (carries cb) (posted (engine w)))"

definition held :: "callback \<Rightarrow> world \<Rightarrow> nat" where
  "held cb w = (if on_handshake_done (mgr w) = Some cb then 1 else 0)"

text \<open>The handle of the timer armed last in a history.\<close>

fun latest_armed :: "action list \<Rightarrow> task_handle option" where
  "latest_armed [] = None"
| "latest_armed (a # as) =
     (case latest_armed as of
        Some h \<Rightarrow> Some h
      | None \<Rightarrow> (case a of Engine_RunAfter h \<Rightarrow> Some h | _ \<Rightarrow> None))"

text \<open>All the places where the callback \<open>cb\<close> is: called, posted, or still held.\<close>

definition total :: "callback \<Rightarrow> world \<Rightarrow> nat" where
  "total cb w = invoked cb w + queued cb w + held cb w"

text \<open>
  In a history, every post of a closure comes directly after the cancellation of the
  timer armed last before it.
\<close>

definition guarded :: "action list \<Rightarrow> bool" where
  "guarded H \<longleftrightarrow>
     (\<forall>xs c ys. H = xs @ Engine_Run c # ys \<longrightarrow>
        (\<exists>pre h. xs = pre @ [Engine_Cancel (Some h)] \<and> latest_armed pre = Some h))"

text \<open>
  The invariant of the reachable worlds: the cursor is inside the list and counts the
  handshakers invoked; at most one continuation is outstanding, and none in a deadlock;
  the manager holds the terminal callback exactly while a continuation is outstanding or
  the manager is deadlocked; a manager that went past handshaker 0, holds no callback
  and is not deadlocked is shut down; a posted closure means shut down; every posted
  closure holds a callback; the stored timer handle is that of the timer armed last.
\<close>

definition sound :: "world \<Rightarrow> bool" where
  "sound w \<longleftrightarrow>
     index (mgr w) \<le> length (handshakers (mgr w)) \<and>
     index (mgr w) = length (filter is_invoke (history w)) \<and>
     outstanding w \<le> 1 \<and>
     (deadlocked w \<longrightarrow> outstanding w = 0) \<and>
     (on_handshake_done (mgr w) \<noteq> None \<longleftrightarrow> outstanding w = 1 \<or> deadlocked w) \<and>
     (outstanding w = 1 \<or> deadlocked w \<longrightarrow>
        0 < index (mgr w) \<and> deadline_timer_handle (mgr w) \<noteq> None) \<and>
     (outstanding w = 0 \<and> 0 < index (mgr w) \<and> \<not> deadlocked w \<longrightarrow> is_shutdown (mgr w)) \<and>
     (posts (history w) \<noteq> [] \<longrightarrow> is_shutdown (mgr w)) \<and>
     (\<forall>c \<in> set (posted (engine w)). \<exists>cb res. c = Terminal_closure (Some cb) res) \<and>
     latest_armed (history w) = deadline_timer_handle (mgr w)"

subsection \<open>Sample inputs\<close>

text \<open>
  A manager whose only handshaker is in progress, and arguments as a handshaker may
  leave them.
\<close>

definition in_progress :: manager where
  "in_progress = (Add ''tls'' HandshakeManager)\<lparr>index := 1, on_handshake_done := Some 7,
     deadline_timer_handle := Some 0,
     args := \<lparr>endpoint = Some 1, read_buffer = [], deadline = 0, exit_early = False\<rparr>\<rparr>"

definition plain_args :: handshaker_args where
  "plain_args = \<lparr>endpoint = Some 1, read_buffer = [], deadline = 0, exit_early = False\<rparr>"

text \<open>
  The story of a deadline that expires while the only handshaker is in progress, and the
  worlds it goes through: the handshaker registered, then invoked, then asked to shut
  down by the deadline task, and the world at rest after the handshaker has completed
  with ok, a late \<^verbatim>\<open>Shutdown\<close> has come in and the engine has run the terminal closure.
\<close>

definition timeout_story :: "event list" where
  "timeout_story =
     [Ev_Add ''tls'', Ev_DoHandshake (Some 1) 0 None 7 Returns, Ev_Timer Returns,
      Ev_Complete plain_args OkStatus Returns, Ev_Shutdown (ErrorStatus ''late'') Returns,
      Ev_Exec 0]"

definition registered :: world where
  "registered = start\<lparr>mgr := Add ''tls'' HandshakeManager\<rparr>"

definition handshaking :: world where
  "handshaking =
     \<lparr>mgr = in_progress, engine = \<lparr>posted = []\<rparr>,
      history = [Trace_New, Engine_RunAfter 0, Trace_Log (Calling_handshaker ''tls'' 0),
                 Hs_DoHandshake ''tls''],
      outstanding = 1, armed = 1, deadlocked = False\<rparr>"

definition timed_out :: world where
  "timed_out =
     handshaking\<lparr>mgr := in_progress\<lparr>is_shutdown := True\<rparr>,
       history := history handshaking @
         [ExecCtx_enter,
          Trace_Log (Shutdown_called (ErrorStatus ''Handshake timed out'')),
          Trace_Log (Shutting_down_handshaker_at 0),
          Hs_Shutdown ''tls'' (ErrorStatus ''Handshake timed out''),
          ExecCtx_exit]\<rparr>"

definition at_rest :: world where
  "at_rest =
     timed_out\<lparr>mgr := in_progress\<lparr>is_shutdown := True, on_handshake_done := None,
                      args := plain_args\<lparr>endpoint := None\<rparr>\<rparr>,
       outstanding := 0,
       history := history timed_out @
         [Endpoint_destroy 1,
          Trace_Log (Failed_with_error (ErrorStatus ''handshaker shutdown'')),
          Trace_Commit, Engine_Cancel (Some 0),
          Engine_Run (Terminal_closure (Some 7) (Failure (ErrorStatus ''handshaker shutdown''))),
          ExecCtx_enter,
          Call_on_handshake_done 7 (Failure (ErrorStatus ''handshaker shutdown'')),
          Destroy_callback 7, ExecCtx_exit]\<rparr>"

text \<open>
  The story of a handshaker that calls its continuation before its \<^verbatim>\<open>DoHandshake\<close>
  returns; the deadline task and a \<^verbatim>\<open>Shutdown\<close> of the caller come after it. In the world
  it ends in, the thread of \<^verbatim>\<open>DoHandshake\<close> and the two later ones are blocked on \<^verbatim>\<open>mu_\<close>.
\<close>

definition inline_story :: "event list" where
  "inline_story =
     [Ev_Add ''tls'', Ev_DoHandshake (Some 1) 0 None 7 (Calls_back plain_args OkStatus),
      Ev_Timer Returns, Ev_Shutdown (ErrorStatus ''cancel'') Returns]"

definition stuck :: world where
  "stuck =
     handshaking\<lparr>outstanding := 0, deadlocked := True,
       history := history handshaking @ [ExecCtx_enter]\<rparr>"

section \<open>One call of the manager\<close>

lemma posts_append [simp]: "posts (xs @ ys) = posts xs @ posts ys"
  by (induction xs rule: posts.induct) simp_all

lemma posts_silent [simp]: "list_all silent xs \<Longrightarrow> posts xs = []"
  by (induction xs rule: posts.induct) simp_all

lemma hs_call_silent [simp]: "list_all silent xs \<Longrightarrow> filter hs_call xs = []"
  by (induction xs) (auto elim: silent.elims)

lemma is_invoke_silent [simp]: "list_all silent xs \<Longrightarrow> filter is_invoke xs = []"
  by (induction xs) (auto elim: silent.elims)

lemma is_arm_silent [simp]: "list_all silent xs \<Longrightarrow> filter is_arm xs = []"
  by (induction xs) (auto elim: silent.elims)

lemma silent_destroy [simp]: "list_all silent (destroy e)"
  by (cases e) simp_all

lemma CallNext_checked:
  "index m \<le> length (handshakers m) \<Longrightarrow> \<exists>m' acts. CallNextHandshakerLocked st m = Inr (m', acts)"
  by (simp add: CallNextHandshakerLocked_def Let_def)

lemma CallNext_terminal:
  assumes "CallNextHandshakerLocked st m = Inr (m', acts)" and "terminal st m"
  shows "m' = m\<lparr>args := (if ok st \<and> is_shutdown m then (args m)\<lparr>endpoint := None\<rparr> else args m),
                 is_shutdown := True, on_handshake_done := None\<rparr>"
    and "\<exists>pre. list_all silent pre \<and>
           acts = pre @
             [Engine_Cancel (deadline_timer_handle m),
              Engine_Run (Terminal_closure (on_handshake_done m)
                (if ok st then (if is_shutdown m then Failure (ErrorStatus ''handshaker shutdown'')
                                else Args_ptr)
                 else Failure st))]"
proof -
  from assms show "m' = m\<lparr>args := (if ok st \<and> is_shutdown m then (args m)\<lparr>endpoint := None\<rparr>
                                      else args m),
                             is_shutdown := True, on_handshake_done := None\<rparr>"
    by (auto simp: CallNextHandshakerLocked_def terminal_def Let_def split: if_splits)
  let ?pre = "(if ok st \<and> is_shutdown m then destroy (endpoint (args m)) else []) @
              (if ok st \<and> \<not> is_shutdown m then []
               else [Trace_Log (Failed_with_error
                       (if ok st then ErrorStatus ''handshaker shutdown'' else st))]) @
              [Trace_Commit]"
  have "list_all silent ?pre" by simp
  moreover from assms have "acts = ?pre @
             [Engine_Cancel (deadline_timer_handle m),
              Engine_Run (Terminal_closure (on_handshake_done m)
                (if ok st then (if is_shutdown m then Failure (ErrorStatus ''handshaker shutdown'')
                                else Args_ptr)
                 else Failure st))]"
    by (auto simp: CallNextHandshakerLocked_def terminal_def Let_def split: if_splits)
  ultimately show "\<exists>pre. list_all silent pre \<and>
           acts = pre @
             [Engine_Cancel (deadline_timer_handle m),
              Engine_Run (Terminal_closure (on_handshake_done m)
                (if ok st then (if is_shutdown m then Failure (ErrorStatus ''handshaker shutdown'')
                                else Args_ptr)
                 else Failure st))]"
    by blast
qed

lemma CallNext_advance:
  assumes "CallNextHandshakerLocked st m = Inr (m', acts)" and "\<not> terminal st m"
  shows "index m < length (handshakers m)"
    and "m' = m\<lparr>index := index m + 1\<rparr>"
    and "acts = [Trace_Log (Calling_handshaker (handshakers m ! index m) (index m)),
                 Hs_DoHandshake (handshakers m ! index m)]"
  using assms
  by (auto simp: CallNextHandshakerLocked_def terminal_def Let_def split: if_splits)

lemma Shutdown_latched: "is_shutdown m \<Longrightarrow> Shutdown e m = Inr (m, [])"
  by (simp add: Shutdown_def)

lemma Shutdown_fresh:
  assumes "Shutdown e m = Inr (m', acts)" and "\<not> is_shutdown m"
  shows "m' = m\<lparr>is_shutdown := True\<rparr>"
    and "posts acts = []"
    and "filter is_invoke acts = []"
    and "filter is_arm acts = []"
    and "filter hs_call acts =
           (if 0 < index m then [Hs_Shutdown (handshakers m ! (index m - 1)) e] else [])"
  using assms by (auto simp: Shutdown_def split: if_splits)


section \<open>The sample stories\<close>

lemma story_added: "fire (Ev_Add ''tls'') start = Inr registered"
  by (simp add: fire_def registered_def start_def)

lemma story_registered: "run [Ev_Add ''tls''] start = Inr registered"
  using story_added by simp

lemma story_invoked:
  "fire (Ev_DoHandshake (Some 1) 0 None 7 Returns) registered = Inr handshaking"
  by (simp add: fire_def registered_def handshaking_def in_progress_def start_def
      HandshakeManager_def DoHandshake_def CallNextHandshakerLocked_def Add_def lift_def
      effect_def Let_def)

lemma story_timer: "fire (Ev_Timer Returns) handshaking = Inr timed_out"
  by (simp add: fire_def enter_def timed_out_def handshaking_def in_progress_def
      HandshakeManager_def Shutdown_def Add_def lift_def effect_def)

lemma story_rest:
  "run [Ev_Complete plain_args OkStatus Returns, Ev_Shutdown (ErrorStatus ''late'') Returns,
        Ev_Exec 0] timed_out = Inr at_rest"
  by (simp add: fire_def at_rest_def timed_out_def handshaking_def in_progress_def plain_args_def
      HandshakeManager_def Shutdown_def CallNextHandshakerLocked_def Add_def lift_def effect_def
      Run_def Let_def)

lemma story_handshaking:
  "run [Ev_Add ''tls'', Ev_DoHandshake (Some 1) 0 None 7 Returns] start = Inr handshaking"
  using story_added story_invoked by simp

lemma story_timed_out:
  "run [Ev_Add ''tls'', Ev_DoHandshake (Some 1) 0 None 7 Returns, Ev_Timer Returns] start =
     Inr timed_out"
  using story_added story_invoked story_timer by simp

lemma story_at_rest: "run timeout_story start = Inr at_rest"
  using story_added story_invoked story_timer story_rest by (simp add: timeout_story_def)

lemma story_stuck: "run inline_story start = Inr stuck"
proof -
  have "fire (Ev_DoHandshake (Some 1) 0 None 7 (Calls_back plain_args OkStatus)) registered =
      Inr (handshaking\<lparr>outstanding := 0, deadlocked := True\<rparr>)"
    by (simp add: fire_def registered_def handshaking_def in_progress_def start_def plain_args_def
        HandshakeManager_def DoHandshake_def CallNextHandshakerLocked_def Add_def lift_def
        effect_def Let_def)
  moreover have "fire (Ev_Timer Returns) (handshaking\<lparr>outstanding := 0, deadlocked := True\<rparr>) =
      Inr stuck"
    by (simp add: fire_def enter_def stuck_def handshaking_def)
  moreover have "fire (Ev_Shutdown (ErrorStatus ''cancel'') Returns) stuck = Inr stuck"
    by (simp add: fire_def stuck_def)
  ultimately show ?thesis using story_added by (simp add: inline_story_def)
qed

section \<open>The claims about one call\<close>

text \<open>
  Claim C2. When its \<^verbatim>\<open>CHECK\<close> passes, \<^verbatim>\<open>CallNextHandshakerLocked\<close> takes the terminal
  branch (it posts the terminal closure) if and only if the incoming status is not ok, or
  \<open>is_shutdown\<close> is set, or \<open>exit_early\<close> is set, or \<open>index\<close> equals the number of
  handshakers. The terminal branch leaves \<open>index\<close> alone and calls no handshaker. In every
  other case the call reads \<open>handshakers ! index\<close>, increments \<open>index\<close>, changes nothing
  else, and calls \<^verbatim>\<open>DoHandshake\<close> on that handshaker and on no other.
\<close>

theorem CallNextHandshakerLocked_branches:
  assumes "index m \<le> length (handshakers m)"
  shows "\<exists>m' acts. CallNextHandshakerLocked st m = Inr (m', acts) \<and>
           (posts acts \<noteq> [] \<longleftrightarrow>
              \<not> ok st \<or> is_shutdown m \<or> exit_early (args m) \<or> index m = length (handshakers m)) \<and>
           (posts acts \<noteq> [] \<longrightarrow> index m' = index m \<and> filter hs_call acts = []) \<and>
           (posts acts = [] \<longrightarrow>
              index m < length (handshakers m) \<and> m' = m\<lparr>index := index m + 1\<rparr> \<and>
              filter hs_call acts = [Hs_DoHandshake (handshakers m ! index m)])"
proof -
  from CallNext_checked [OF assms] obtain m' acts
    where run: "CallNextHandshakerLocked st m = Inr (m', acts)" by blast
  show ?thesis
  proof (cases "terminal st m")
    case True
    from CallNext_terminal [OF run True] True run show ?thesis
      by (auto simp: terminal_def)
  next
    case False
    from CallNext_advance [OF run False] False run show ?thesis
      by (simp add: terminal_def)
  qed
qed

theorem CallNextHandshakerLocked_branches_witness:
  "\<exists>m' acts. CallNextHandshakerLocked OkStatus (Add ''tls'' HandshakeManager) = Inr (m', acts) \<and>
     posts acts = [] \<and> index m' = 1 \<and> filter hs_call acts = [Hs_DoHandshake ''tls'']"
  using CallNextHandshakerLocked_branches [of "Add ''tls'' HandshakeManager" OkStatus]
  by (auto simp: Add_def HandshakeManager_def)

text \<open>
  Claim C3. Whenever the terminal branch is taken by a manager that holds the callback
  \<open>cb\<close>, the call posts, as its last action and as its only post, the closure that
  holds \<open>cb\<close> and a result, gives up the callback, and the closure run by the engine
  calls \<open>cb\<close> with that result. The result is the incoming status whenever that is not
  ok, also when \<open>is_shutdown\<close> is set; it is the error "handshaker shutdown" only for an
  ok incoming status with \<open>is_shutdown\<close> set; and it is the pointer to the arguments for
  an ok incoming status without \<open>is_shutdown\<close>.
\<close>

theorem shutdown_error_only_for_ok_status:
  assumes "index m \<le> length (handshakers m)"
    and "\<not> ok st \<or> is_shutdown m \<or> exit_early (args m) \<or> index m = length (handshakers m)"
    and "on_handshake_done m = Some cb"
  shows "\<exists>m' pre.
           CallNextHandshakerLocked st m =
             Inr (m', pre @ [Engine_Run (Terminal_closure (Some cb)
               (if ok st then (if is_shutdown m then Failure (ErrorStatus ''handshaker shutdown'')
                               else Args_ptr)
                else Failure st))]) \<and>
           posts pre = [] \<and> on_handshake_done m' = None \<and>
           run_closure (Terminal_closure (Some cb)
               (if ok st then (if is_shutdown m then Failure (ErrorStatus ''handshaker shutdown'')
                               else Args_ptr)
                else Failure st)) =
             Inr [ExecCtx_enter,
                  Call_on_handshake_done cb
                    (if ok st then (if is_shutdown m then Failure (ErrorStatus ''handshaker shutdown'')
                                    else Args_ptr)
                     else Failure st),
                  Destroy_callback cb, ExecCtx_exit]"
proof -
  from CallNext_checked [OF assms(1)] obtain m' acts
    where call: "CallNextHandshakerLocked st m = Inr (m', acts)" by blast
  from assms(2) have t: "terminal st m" by (simp add: terminal_def)
  from CallNext_terminal(2) [OF call t] obtain sil where sil: "list_all silent sil"
    and acts: "acts = sil @ [Engine_Cancel (deadline_timer_handle m),
       Engine_Run (Terminal_closure (on_handshake_done m)
         (if ok st then (if is_shutdown m then Failure (ErrorStatus ''handshaker shutdown'')
                         else Args_ptr)
          else Failure st))]" by blast
  have "CallNextHandshakerLocked st m =
      Inr (m', (sil @ [Engine_Cancel (deadline_timer_handle m)]) @
        [Engine_Run (Terminal_closure (Some cb)
           (if ok st then (if is_shutdown m then Failure (ErrorStatus ''handshaker shutdown'')
                           else Args_ptr)
            else Failure st))])"
    using call acts assms(3) by simp
  moreover have "posts (sil @ [Engine_Cancel (deadline_timer_handle m)]) = []"
    using sil by simp
  moreover have "on_handshake_done m' = None"
    unfolding CallNext_terminal(1) [OF call t] by simp
  moreover have "run_closure (Terminal_closure (Some cb)
               (if ok st then (if is_shutdown m then Failure (ErrorStatus ''handshaker shutdown'')
                               else Args_ptr)
                else Failure st)) =
             Inr [ExecCtx_enter,
                  Call_on_handshake_done cb
                    (if ok st then (if is_shutdown m then Failure (ErrorStatus ''handshaker shutdown'')
                                    else Args_ptr)
                     else Failure st),
                  Destroy_callback cb, ExecCtx_exit]"
    by simp
  ultimately show ?thesis by blast
qed

theorem shutdown_error_only_for_ok_status_witness:
  "run [Ev_Add ''tls'', Ev_DoHandshake (Some 1) 0 None 7 Returns, Ev_Timer Returns] start =
     Inr timed_out \<and>
   is_shutdown (mgr timed_out) \<and>
   (\<exists>m' pre.
      CallNextHandshakerLocked (ErrorStatus ''bad preface'') (mgr timed_out) =
        Inr (m', pre @ [Engine_Run (Terminal_closure (Some 7)
                          (Failure (ErrorStatus ''bad preface'')))]) \<and>
      posts pre = [] \<and> on_handshake_done m' = None)"
proof -
  have 1: "index (mgr timed_out) \<le> length (handshakers (mgr timed_out))"
    by (simp add: timed_out_def handshaking_def in_progress_def Add_def HandshakeManager_def)
  have 2: "\<not> ok (ErrorStatus ''bad preface'') \<or> is_shutdown (mgr timed_out) \<or>
      exit_early (args (mgr timed_out)) \<or>
      index (mgr timed_out) = length (handshakers (mgr timed_out))" by simp
  have 3: "on_handshake_done (mgr timed_out) = Some 7"
    by (simp add: timed_out_def handshaking_def in_progress_def)
  have 4: "is_shutdown (mgr timed_out)"
    by (simp add: timed_out_def handshaking_def)
  from shutdown_error_only_for_ok_status [OF 1 2 3] story_timed_out 4 show ?thesis
    by auto
qed

text \<open>
  Claim C4, evaluated on the happy path of two handshakers that both complete with ok:
  the terminal branch calls \<^verbatim>\<open>Commit\<close> on the trace node although the status delivered
  is ok (\<open>Args_ptr\<close>). The call of \<^verbatim>\<open>Commit\<close> at line 170 stands outside the
  \<^verbatim>\<open>if (!error.ok())\<close> of line 167, against the comments of lines 108 and 164.
\<close>

theorem ok_terminal_commits_trace:
  "map_sum id history
     (run [Ev_Add ''h1'', Ev_Add ''h2'', Ev_DoHandshake (Some 1) 0 None 7 Returns,
           Ev_Complete plain_args OkStatus Returns, Ev_Complete plain_args OkStatus Returns]
        start) =
   Inr [Trace_New, Engine_RunAfter 0,
        Trace_Log (Calling_handshaker ''h1'' 0), Hs_DoHandshake ''h1'',
        Trace_Log (Calling_handshaker ''h2'' 1), Hs_DoHandshake ''h2'',
        Trace_Commit, Engine_Cancel (Some 0),
        Engine_Run (Terminal_closure (Some 7) Args_ptr)]"
  by (simp add: fire_def start_def HandshakeManager_def DoHandshake_def
      CallNextHandshakerLocked_def Add_def lift_def effect_def Run_def Let_def plain_args_def)




text \<open>
  Claim C7. \<^verbatim>\<open>Shutdown\<close> on a manager already shut down changes nothing and calls
  nothing. Otherwise it only sets \<open>is_shutdown\<close>, calls \<^verbatim>\<open>Shutdown(error)\<close> on
  \<open>handshakers ! (index - 1)\<close> exactly when \<open>0 < index\<close>, posts no closure and calls no
  terminal callback; a second \<^verbatim>\<open>Shutdown\<close> is then without effect.
\<close>

theorem Shutdown_idempotent:
  "(is_shutdown m \<longrightarrow> Shutdown e m = Inr (m, [])) \<and>
   (\<not> is_shutdown m \<and> index m \<le> length (handshakers m) \<longrightarrow>
      (\<exists>acts. Shutdown e m = Inr (m\<lparr>is_shutdown := True\<rparr>, acts) \<and>
         filter hs_call acts =
           (if 0 < index m then [Hs_Shutdown (handshakers m ! (index m - 1)) e] else []) \<and>
         posts acts = [] \<and> filter (calls cb) acts = [] \<and>
         Shutdown e' (m\<lparr>is_shutdown := True\<rparr>) = Inr (m\<lparr>is_shutdown := True\<rparr>, [])))"
  by (auto simp: Shutdown_def)

theorem Shutdown_idempotent_witness:
  "\<exists>acts. Shutdown (ErrorStatus ''cancel'') in_progress = Inr (in_progress\<lparr>is_shutdown := True\<rparr>, acts) \<and>
     filter hs_call acts = [Hs_Shutdown ''tls'' (ErrorStatus ''cancel'')] \<and>
     posts acts = [] \<and>
     Shutdown (ErrorStatus ''again'') (in_progress\<lparr>is_shutdown := True\<rparr>) =
       Inr (in_progress\<lparr>is_shutdown := True\<rparr>, [])"
  using Shutdown_idempotent [of in_progress "ErrorStatus ''cancel''" 7 "ErrorStatus ''again''"]
  by (auto simp: in_progress_def Add_def HandshakeManager_def)

text \<open>
  Claim C9 fails as stated: a second \<^verbatim>\<open>DoHandshake\<close> on a manager without handshakers
  passes the \<^verbatim>\<open>CHECK_EQ\<close> and runs to a second terminal, and \<^verbatim>\<open>Add\<close> after
  \<^verbatim>\<open>DoHandshake\<close> appends the handshaker.
\<close>

theorem misuse_not_detected:
  "map_sum id history
     (run [Ev_DoHandshake None 0 None 7 Returns, Ev_DoHandshake None 0 None 8 Returns] start) =
     Inr [Trace_New, Engine_RunAfter 0, Trace_Commit, Engine_Cancel (Some 0),
          Engine_Run (Terminal_closure (Some 7) Args_ptr),
          Trace_New, Engine_RunAfter 1,
          Trace_Log (Failed_with_error (ErrorStatus ''handshaker shutdown'')), Trace_Commit,
          Engine_Cancel (Some 1),
          Engine_Run (Terminal_closure (Some 8) (Failure (ErrorStatus ''handshaker shutdown'')))] \<and>
   map_sum id (handshakers \<circ> mgr)
     (run [Ev_Add ''tls'', Ev_DoHandshake None 0 None 7 Returns, Ev_Add ''http''] start) =
     Inr [''tls'', ''http'']"
  by (simp add: fire_def start_def HandshakeManager_def DoHandshake_def
      CallNextHandshakerLocked_def Add_def lift_def effect_def Run_def Let_def)

text \<open>
  Claim C9, amended. \<^verbatim>\<open>DoHandshake\<close> fails its \<^verbatim>\<open>CHECK_EQ(index_, 0u)\<close> exactly when
  the cursor is not 0, and proceeds whenever the cursor is 0, whether or not it was
  called before; \<^verbatim>\<open>Add\<close> has no check and always appends.
\<close>

theorem DoHandshake_checks_cursor_only:
  "(index m \<noteq> 0 \<longrightarrow> DoHandshake ep dl acc cb h m = Inl Check_failed) \<and>
   (index m = 0 \<longrightarrow> (\<exists>m' acts. DoHandshake ep dl acc cb h m = Inr (m', acts))) \<and>
   Add hs m = m\<lparr>handshakers := handshakers m @ [hs]\<rparr>"
  by (simp add: DoHandshake_def CallNextHandshakerLocked_def Add_def Let_def)

theorem DoHandshake_checks_cursor_only_witness:
  "DoHandshake None 0 None 8 1 in_progress = Inl Check_failed \<and>
   (\<exists>m' acts. DoHandshake None 0 None 8 1 HandshakeManager = Inr (m', acts))"
  using DoHandshake_checks_cursor_only [of in_progress None 0 None 8 1 "''x''"]
    DoHandshake_checks_cursor_only [of HandshakeManager None 0 None 8 1 "''x''"]
  by (simp add: in_progress_def Add_def HandshakeManager_def)

text \<open>
  Claim C10. \<^verbatim>\<open>InvokeOnHandshakeDone\<close> does one thing on the caller's stack: it posts a
  closure to the event engine. The closure, when the engine runs it, enters an
  \<^verbatim>\<open>ExecCtx\<close>, calls the continuation once with the status given, destroys the callback
  and only then leaves the \<^verbatim>\<open>ExecCtx\<close>; after that the closure is gone from the queue.
\<close>

theorem InvokeOnHandshakeDone_posted:
  "snd (InvokeOnHandshakeDone (Some cb) st (engine w)) = [Engine_Run (Done_closure (Some cb) st)] \<and>
   posted (fst (InvokeOnHandshakeDone (Some cb) st (engine w))) =
     posted (engine w) @ [Done_closure (Some cb) st] \<and>
   run_closure (Done_closure (Some cb) st) =
     Inr [ExecCtx_enter, Call_continuation cb st, Destroy_callback cb, ExecCtx_exit] \<and>
   fire (Ev_Exec (length (posted (engine w))))
     (w\<lparr>engine := fst (InvokeOnHandshakeDone (Some cb) st (engine w))\<rparr>) =
     Inr (w\<lparr>history := history w @
            [ExecCtx_enter, Call_continuation cb st, Destroy_callback cb, ExecCtx_exit]\<rparr>)"
  by (simp add: fire_def InvokeOnHandshakeDone_def Run_def Let_def)

theorem InvokeOnHandshakeDone_posted_witness:
  "fire (Ev_Exec 0) (start\<lparr>engine := fst (InvokeOnHandshakeDone (Some 3) OkStatus (engine start))\<rparr>) =
     Inr (start\<lparr>history := [ExecCtx_enter, Call_continuation 3 OkStatus, Destroy_callback 3,
                                ExecCtx_exit]\<rparr>)"
  using InvokeOnHandshakeDone_posted [of 3 OkStatus start]
  by (simp add: start_def)

section \<open>Runs\<close>

lemma fold_Run [simp]: "fold Run cs e = e\<lparr>posted := posted e @ cs\<rparr>"
  by (induction cs arbitrary: e) (simp_all add: Run_def)

lemma effect_simps [simp]:
  "mgr (effect w (m, acts)) = m"
  "posted (engine (effect w (m, acts))) = posted (engine w) @ posts acts"
  "history (effect w (m, acts)) = history w @ acts"
  "outstanding (effect w (m, acts)) = outstanding w + length (filter is_invoke acts)"
  "armed (effect w (m, acts)) = armed w + length (filter is_arm acts)"
  "deadlocked (effect w (m, acts)) = deadlocked w"
  by (simp_all add: effect_def)

lemma latest_armed_append:
  "latest_armed (xs @ ys) = (case latest_armed ys of Some h \<Rightarrow> Some h | None \<Rightarrow> latest_armed xs)"
  by (induction xs) (simp_all split: option.splits)

lemma latest_armed_silent [simp]: "list_all silent xs \<Longrightarrow> latest_armed xs = None"
  by (induction xs) (auto elim!: silent.elims split: option.splits)

lemma calls_silent [simp]: "list_all silent xs \<Longrightarrow> filter (calls cb) xs = []"
  by (induction xs) (auto elim: silent.elims)

lemma enter_simps [simp]:
  "mgr (enter w) = mgr w"
  "engine (enter w) = engine w"
  "history (enter w) = history w @ [ExecCtx_enter]"
  "outstanding (enter w) = outstanding w"
  "armed (enter w) = armed w"
  "deadlocked (enter w) = deadlocked w"
  by (simp_all add: enter_def)

text \<open>What a successful event did, event by event.\<close>

lemma serve_DoHandshake:
  assumes "serve (Ev_DoHandshake ep dl acc cb r) w = Inr w'"
  obtains a m2 acts where
    "index (mgr w) = 0"
    "CallNextHandshakerLocked OkStatus
       ((mgr w)\<lparr>on_handshake_done := Some cb, args := a,
                 deadline_timer_handle := Some (armed w)\<rparr>) = Inr (m2, acts)"
    "w' = effect w (m2, destroy (endpoint (args (mgr w))) @ [Trace_New, Engine_RunAfter (armed w)] @ acts)"
  using assms
  by (auto simp: lift_def DoHandshake_def Let_def split: if_splits sum.splits)

lemma serve_Shutdown:
  assumes "serve (Ev_Shutdown e r) w = Inr w'"
  obtains m' acts where "Shutdown e (mgr w) = Inr (m', acts)" "w' = effect w (m', acts)"
  using assms by (auto simp: lift_def split: sum.splits)

lemma serve_Timer:
  assumes "serve (Ev_Timer r) w = Inr w'"
  obtains m' acts where "0 < armed w"
    "Shutdown (ErrorStatus ''Handshake timed out'') (mgr w) = Inr (m', acts)" "w' = effect (enter w) (m', acts)"
  using assms by (auto simp: lift_def split: sum.splits if_splits)

lemma serve_Complete:
  assumes "serve (Ev_Complete a st r) w = Inr w'"
  obtains m' acts where "0 < outstanding w"
    "CallNextHandshakerLocked st ((mgr w)\<lparr>args := a\<rparr>) = Inr (m', acts)"
    "w' = effect (w\<lparr>outstanding := outstanding w - 1\<rparr>) (m', acts)"
  using assms by (auto simp: lift_def split: sum.splits if_splits)

lemma serve_Exec:
  assumes "serve (Ev_Exec k) w = Inr w'"
  obtains acts where "k < length (posted (engine w))"
    "run_closure (posted (engine w) ! k) = Inr acts"
    "w' = w\<lparr>engine := (engine w)\<lparr>posted := take k (posted (engine w)) @ drop (Suc k) (posted (engine w))\<rparr>,
            history := history w @ acts\<rparr>"
  using assms by (auto simp: Let_def split: sum.splits if_splits)

lemma serve_deadlocked: "serve e w = Inr w' \<Longrightarrow> deadlocked w' = deadlocked w"
  by (cases e) (auto simp: lift_def Let_def split: sum.splits if_splits)

lemma blocked_cases:
  assumes "blocked e w = Inr w'"
  shows "w' = w \<or> w' = enter w \<or>
         (0 < outstanding w \<and>
          (\<exists>a. w' = w\<lparr>mgr := (mgr w)\<lparr>args := a\<rparr>, outstanding := outstanding w - 1\<rparr>)) \<or>
         (\<exists>k. serve (Ev_Exec k) w = Inr w')"
  using assms by (cases e) (auto simp del: serve.simps split: if_splits)

lemma fire_cases:
  assumes "fire e w = Inr w'"
  obtains (blocked) "deadlocked w" "blocked e w = Inr w'"
  | (served) w1 where "\<not> deadlocked w" "serve e w = Inr w1"
      "w' = wind_up e (react (reaction_of e) (drop (length (history w)) (history w1)) w1)"
  using assms by (auto simp: fire_def split: if_splits sum.splits)

lemma sound_start: "sound start"
  by (simp add: sound_def start_def HandshakeManager_def)

lemma sound_Add: "sound w \<Longrightarrow> sound (w\<lparr>mgr := Add h (mgr w)\<rparr>)"
  by (auto simp: sound_def Add_def)

lemma sound_enter: "sound w \<Longrightarrow> sound (enter w)"
  by (auto simp: sound_def latest_armed_append)

lemma sound_terminal:
  assumes call: "CallNextHandshakerLocked st m = Inr (m', acts)" and t: "terminal st m"
    and w: "sound w" and nd: "\<not> deadlocked w" and cb: "on_handshake_done m \<noteq> None"
    and m: "index m = index (mgr w)" "handshakers m = handshakers (mgr w)"
    and h: "latest_armed (history w @ pre) = deadline_timer_handle m"
    and pre: "filter is_invoke pre = []" "posts pre = []"
  shows "sound (effect (w\<lparr>outstanding := 0\<rparr>) (m', pre @ acts))"
proof -
  from CallNext_terminal(2) [OF call t] obtain sil where sil: "list_all silent sil"
    and acts: "acts = sil @ [Engine_Cancel (deadline_timer_handle m),
       Engine_Run (Terminal_closure (on_handshake_done m)
         (if ok st then (if is_shutdown m then Failure (ErrorStatus ''handshaker shutdown'')
                         else Args_ptr)
          else Failure st))]" by blast
  have la: "latest_armed acts = None"
    using sil by (simp add: acts latest_armed_append)
  have "latest_armed (history w @ pre @ acts) = latest_armed (history w @ pre)"
    using la latest_armed_append [of "history w @ pre" acts] by simp
  with w nd cb m h pre sil show ?thesis
    unfolding CallNext_terminal(1) [OF call t]
    by (auto simp: sound_def acts)
qed


lemma sound_advance:
  assumes call: "CallNextHandshakerLocked st m = Inr (m', acts)" and t: "\<not> terminal st m"
    and w: "sound w" and nd: "\<not> deadlocked w" and cb: "on_handshake_done m \<noteq> None"
    and m: "index m = index (mgr w)" "handshakers m = handshakers (mgr w)"
      "is_shutdown m = is_shutdown (mgr w)"
    and h: "latest_armed (history w @ pre) = deadline_timer_handle m"
      "deadline_timer_handle m \<noteq> None"
    and pre: "filter is_invoke pre = []" "posts pre = []"
  shows "sound (effect (w\<lparr>outstanding := 0\<rparr>) (m', pre @ acts))"
proof -
  note adv = CallNext_advance [OF call t]
  have "latest_armed (history w @ pre @ acts) = latest_armed (history w @ pre)"
    using latest_armed_append [of "history w @ pre" acts] by (simp add: adv(3))
  moreover from t have "\<not> is_shutdown m" by (simp add: terminal_def)
  ultimately show ?thesis
    using w nd cb m h pre adv(1) unfolding adv(2)
    by (auto simp: sound_def adv(3))
qed

lemma sound_call:
  assumes call: "CallNextHandshakerLocked st m = Inr (m', acts)"
    and w: "sound w" and nd: "\<not> deadlocked w" and cb: "on_handshake_done m \<noteq> None"
    and m: "index m = index (mgr w)" "handshakers m = handshakers (mgr w)"
      "is_shutdown m = is_shutdown (mgr w)"
    and h: "latest_armed (history w @ pre) = deadline_timer_handle m"
      "deadline_timer_handle m \<noteq> None"
    and pre: "filter is_invoke pre = []" "posts pre = []"
  shows "sound (effect (w\<lparr>outstanding := 0\<rparr>) (m', pre @ acts))"
  using assms sound_terminal [of st m m' acts w pre] sound_advance [of st m m' acts w pre]
  by blast

lemma sound_Shutdown:
  assumes "Shutdown e (mgr w) = Inr (m', acts)" and "sound w"
  shows "sound (effect w (m', acts))"
proof (cases "is_shutdown (mgr w)")
  case True
  with assms show ?thesis by (auto simp: Shutdown_latched sound_def)
next
  case False
  note fresh = Shutdown_fresh [OF assms(1) False]
  have "list_all (\<lambda>a. \<not> is_arm a) acts"
    using fresh(4) by (simp add: list_all_iff filter_empty_conv)
  then have "latest_armed acts = None"
    by (induction acts) (auto elim: is_arm.elims split: option.splits action.splits)
  then have "latest_armed (history w @ acts) = latest_armed (history w)"
    by (simp add: latest_armed_append)
  with assms(2) fresh show ?thesis
    by (auto simp: sound_def)
qed

lemma sound_serve:
  assumes "serve e w = Inr w'" and "sound w"
  shows "sound w'"
proof (cases e)
  case (Ev_Add h)
  with assms show ?thesis by (auto simp: sound_Add)
next
  case (Ev_DoHandshake ep dl acc cb r)
  from assms(1) [unfolded Ev_DoHandshake] obtain a m2 acts where
    idx: "index (mgr w) = 0" and
    call: "CallNextHandshakerLocked OkStatus
       ((mgr w)\<lparr>on_handshake_done := Some cb, args := a,
                 deadline_timer_handle := Some (armed w)\<rparr>) = Inr (m2, acts)" and
    w': "w' = effect w (m2, destroy (endpoint (args (mgr w))) @ [Trace_New, Engine_RunAfter (armed w)] @ acts)"
    by (blast elim: serve_DoHandshake)
  from idx assms(2) have out: "outstanding w = 0" and nd: "\<not> deadlocked w"
    by (auto simp: sound_def)
  then have w0: "w\<lparr>outstanding := 0\<rparr> = w" by simp
  have "sound (effect (w\<lparr>outstanding := 0\<rparr>)
          (m2, (destroy (endpoint (args (mgr w))) @ [Trace_New, Engine_RunAfter (armed w)]) @ acts))"
    by (rule sound_call [OF call assms(2) nd]) (simp_all add: latest_armed_append)
  with w' w0 show ?thesis by simp
next
  case (Ev_Shutdown err r)
  with assms show ?thesis by (blast elim: serve_Shutdown intro: sound_Shutdown)
next
  case (Ev_Timer r)
  from assms(1) [unfolded Ev_Timer] obtain m' acts where
    s: "Shutdown (ErrorStatus ''Handshake timed out'') (mgr w) = Inr (m', acts)"
    and w': "w' = effect (enter w) (m', acts)"
    by (blast elim: serve_Timer)
  from s have "Shutdown (ErrorStatus ''Handshake timed out'') (mgr (enter w)) = Inr (m', acts)"
    by simp
  from sound_Shutdown [OF this sound_enter [OF assms(2)]] show ?thesis unfolding w' .
next
  case (Ev_Complete a st r)
  from assms(1) [unfolded Ev_Complete] obtain m' acts where
    out: "0 < outstanding w" and
    call: "CallNextHandshakerLocked st ((mgr w)\<lparr>args := a\<rparr>) = Inr (m', acts)" and
    w': "w' = effect (w\<lparr>outstanding := outstanding w - 1\<rparr>) (m', acts)"
    by (blast elim: serve_Complete)
  from out assms(2) have one: "outstanding w = 1" and nd: "\<not> deadlocked w"
    by (auto simp: sound_def)
  have "sound (effect (w\<lparr>outstanding := 0\<rparr>) (m', [] @ acts))"
    by (rule sound_call [OF call assms(2) nd]) (use one assms(2) in \<open>auto simp: sound_def\<close>)
  with w' one show ?thesis by simp
next
  case (Ev_Exec k)
  from assms(1) [unfolded Ev_Exec] obtain acts where
    k: "k < length (posted (engine w))" and
    body: "run_closure (posted (engine w) ! k) = Inr acts" and
    w': "w' = w\<lparr>engine := (engine w)\<lparr>posted := take k (posted (engine w)) @ drop (Suc k) (posted (engine w))\<rparr>,
            history := history w @ acts\<rparr>"
    by (blast elim: serve_Exec)
  from k have "posted (engine w) ! k \<in> set (posted (engine w))" by simp
  with assms(2) obtain cb res where c: "posted (engine w) ! k = Terminal_closure (Some cb) res"
    unfolding sound_def by blast
  with body have acts: "acts = [ExecCtx_enter, Call_on_handshake_done cb res, Destroy_callback cb, ExecCtx_exit]"
    by simp
  have sub: "set (take k (posted (engine w)) @ drop (Suc k) (posted (engine w))) \<subseteq> set (posted (engine w))"
    using set_take_subset set_drop_subset by fastforce
  from assms(2) sub show ?thesis
    unfolding w' acts by (auto simp: sound_def latest_armed_append)
qed

lemma sound_react:
  assumes "sound w"
  shows "sound (react r acts w)"
proof (cases r)
  case Returns
  with assms show ?thesis by simp
next
  case (Calls_back a st)
  show ?thesis
  proof (cases "filter hs_call acts \<noteq> [] \<and> 0 < outstanding w")
    case True
    with assms have "outstanding w = 1" by (simp add: sound_def)
    with assms have "sound (w\<lparr>mgr := (mgr w)\<lparr>args := a\<rparr>, outstanding := 0, deadlocked := True\<rparr>)"
      by (auto simp: sound_def)
    with True \<open>outstanding w = 1\<close> Calls_back show ?thesis by simp
  next
    case False
    with assms Calls_back show ?thesis by auto
  qed
qed

lemma sound_note:
  "sound w \<Longrightarrow> sound (w\<lparr>history := history w @ [ExecCtx_exit]\<rparr>)"
  by (auto simp: sound_def latest_armed_append)

lemma sound_wind_up: "sound w \<Longrightarrow> sound (wind_up e w)"
  by (cases e) (simp_all add: sound_note)

lemma sound_blocked:
  assumes "blocked e w = Inr w'" and "sound w" and "deadlocked w"
  shows "sound w' \<and> deadlocked w'"
proof -
  from assms(2,3) have "outstanding w = 0" by (simp add: sound_def)
  with blocked_cases [OF assms(1)] consider "w' = w" | "w' = enter w"
    | k where "serve (Ev_Exec k) w = Inr w'" by auto
  then show ?thesis
  proof cases
    case 1
    with assms show ?thesis by simp
  next
    case 2
    with assms show ?thesis by (simp add: sound_enter)
  next
    case 3
    from sound_serve [OF 3 assms(2)] serve_deadlocked [OF 3] assms(3) show ?thesis by simp
  qed
qed

lemma sound_fire:
  assumes "fire e w = Inr w'" and "sound w"
  shows "sound w'"
  using assms(1)
proof (cases rule: fire_cases)
  case blocked
  from sound_blocked [OF blocked(2) assms(2) blocked(1)] show ?thesis by simp
next
  case (served w1)
  from sound_serve [OF served(2) assms(2)] show ?thesis
    unfolding served(3) by (intro sound_wind_up sound_react)
qed

lemma sound_run: "run evs w = Inr w' \<Longrightarrow> sound w \<Longrightarrow> sound w'"
  by (induction evs arbitrary: w) (auto split: sum.splits dest: sound_fire)

lemma react_simps [simp]:
  "history (react r acts w) = history w"
  "engine (react r acts w) = engine w"
  "armed (react r acts w) = armed w"
  "handshakers (mgr (react r acts w)) = handshakers (mgr w)"
  "index (mgr (react r acts w)) = index (mgr w)"
  "is_shutdown (mgr (react r acts w)) = is_shutdown (mgr w)"
  "on_handshake_done (mgr (react r acts w)) = on_handshake_done (mgr w)"
  "deadline_timer_handle (mgr (react r acts w)) = deadline_timer_handle (mgr w)"
  by (cases r; simp)+

lemma wind_up_simps [simp]:
  "mgr (wind_up e w) = mgr w"
  "engine (wind_up e w) = engine w"
  "outstanding (wind_up e w) = outstanding w"
  "armed (wind_up e w) = armed w"
  "deadlocked (wind_up e w) = deadlocked w"
  by (cases e; simp)+

lemma wind_up_history:
  "history (wind_up e w) = history w \<or> history (wind_up e w) = history w @ [ExecCtx_exit]"
  by (cases e) simp_all

lemma fire_Exec_eq: "fire (Ev_Exec k) w = serve (Ev_Exec k) w"
  by (simp add: fire_def Let_def split: sum.splits)

text \<open>The cancellation of the timer comes before the post.\<close>

lemma guarded_snoc:
  assumes "guarded K"
    and "\<And>c. a = Engine_Run c \<Longrightarrow> \<exists>pre h. K = pre @ [Engine_Cancel (Some h)] \<and> latest_armed pre = Some h"
  shows "guarded (K @ [a])"
  unfolding guarded_def
proof (intro allI impI)
  fix xs c ys
  assume eq: "K @ [a] = xs @ Engine_Run c # ys"
  show "\<exists>pre h. xs = pre @ [Engine_Cancel (Some h)] \<and> latest_armed pre = Some h"
  proof (cases ys rule: rev_cases)
    case Nil
    with eq have "K = xs" and "a = Engine_Run c" by simp_all
    with assms(2) show ?thesis by blast
  next
    case (snoc ys' y)
    with eq have "K = xs @ Engine_Run c # ys'" by simp
    with assms(1) show ?thesis unfolding guarded_def by blast
  qed
qed

lemma guarded_quiet:
  assumes "guarded H" and "posts acts = []"
  shows "guarded (H @ acts)"
  using assms(2)
proof (induction acts rule: rev_induct)
  case Nil
  with assms(1) show ?case by simp
next
  case (snoc a acts)
  then have g: "guarded (H @ acts)" and na: "\<And>c. a \<noteq> Engine_Run c" by auto
  have "guarded ((H @ acts) @ [a])"
  proof (rule guarded_snoc)
    show "guarded (H @ acts)" by (rule g)
  next
    fix c assume "a = Engine_Run c"
    with na show "\<exists>pre h. H @ acts = pre @ [Engine_Cancel (Some h)] \<and> latest_armed pre = Some h"
      by blast
  qed
  then show ?case by simp
qed

lemma guarded_post:
  assumes "guarded H" and "posts pre = []" and "latest_armed (H @ pre) = Some h"
  shows "guarded (H @ pre @ [Engine_Cancel (Some h), Engine_Run c])"
proof -
  from assms(1,2) have g: "guarded (H @ pre)" by (rule guarded_quiet)
  have g': "guarded ((H @ pre) @ [Engine_Cancel (Some h)])"
    by (rule guarded_snoc [OF g]) simp
  have "guarded (((H @ pre) @ [Engine_Cancel (Some h)]) @ [Engine_Run c])"
    by (rule guarded_snoc [OF g']) (use assms(3) in blast)
  then show ?thesis by simp
qed

lemma guarded_call:
  assumes call: "CallNextHandshakerLocked st m = Inr (m', acts)"
    and g: "guarded H" and pre: "posts pre = []"
    and h: "latest_armed (H @ pre) = deadline_timer_handle m" "deadline_timer_handle m \<noteq> None"
  shows "guarded (H @ pre @ acts)"
proof (cases "terminal st m")
  case True
  from CallNext_terminal(2) [OF call True] obtain sil where sil: "list_all silent sil"
    and acts: "acts = sil @ [Engine_Cancel (deadline_timer_handle m),
       Engine_Run (Terminal_closure (on_handshake_done m)
         (if ok st then (if is_shutdown m then Failure (ErrorStatus ''handshaker shutdown'')
                         else Args_ptr)
          else Failure st))]" by blast
  from h obtain t where t: "deadline_timer_handle m = Some t" by blast
  have "latest_armed (H @ pre @ sil) = Some t"
    using latest_armed_append [of "H @ pre" sil] sil h t by simp
  with g pre sil have "guarded (H @ (pre @ sil) @ [Engine_Cancel (Some t),
       Engine_Run (Terminal_closure (on_handshake_done m)
         (if ok st then (if is_shutdown m then Failure (ErrorStatus ''handshaker shutdown'')
                         else Args_ptr)
          else Failure st))])"
    by (intro guarded_post) simp_all
  then show ?thesis by (simp add: acts t)
next
  case False
  from g have "guarded (H @ (pre @ acts))"
    by (rule guarded_quiet) (simp add: CallNext_advance(3) [OF call False] pre)
  then show ?thesis by simp
qed

lemma guarded_serve:
  assumes "serve e w = Inr w'" and "sound w" and "guarded (history w)"
  shows "guarded (history w')"
proof (cases e)
  case (Ev_Add h)
  with assms show ?thesis by auto
next
  case (Ev_DoHandshake ep dl acc cb r)
  from assms(1) [unfolded Ev_DoHandshake] obtain a m2 acts where
    call: "CallNextHandshakerLocked OkStatus
       ((mgr w)\<lparr>on_handshake_done := Some cb, args := a,
                 deadline_timer_handle := Some (armed w)\<rparr>) = Inr (m2, acts)" and
    w': "w' = effect w (m2, destroy (endpoint (args (mgr w))) @ [Trace_New, Engine_RunAfter (armed w)] @ acts)"
    by (blast elim: serve_DoHandshake)
  have "guarded (history w @ (destroy (endpoint (args (mgr w))) @ [Trace_New, Engine_RunAfter (armed w)]) @ acts)"
    by (rule guarded_call [OF call assms(3)]) (simp_all add: latest_armed_append)
  with w' show ?thesis by simp
next
  case (Ev_Shutdown err r)
  from assms(1) [unfolded Ev_Shutdown] obtain m' acts where
    "Shutdown err (mgr w) = Inr (m', acts)" "w' = effect w (m', acts)"
    by (blast elim: serve_Shutdown)
  with assms(3) show ?thesis
    by (cases "is_shutdown (mgr w)") (auto simp: Shutdown_latched Shutdown_fresh(2) intro: guarded_quiet)
next
  case (Ev_Timer r)
  from assms(1) [unfolded Ev_Timer] obtain m' acts where
    s: "Shutdown (ErrorStatus ''Handshake timed out'') (mgr w) = Inr (m', acts)"
    and w': "w' = effect (enter w) (m', acts)"
    by (blast elim: serve_Timer)
  from s have "posts acts = []"
    by (cases "is_shutdown (mgr w)") (auto simp: Shutdown_latched Shutdown_fresh(2))
  then have "posts ([ExecCtx_enter] @ acts) = []" by simp
  from guarded_quiet [OF assms(3) this] show ?thesis unfolding w' by simp
next
  case (Ev_Complete a st r)
  from assms(1) [unfolded Ev_Complete] obtain m' acts where
    out: "0 < outstanding w" and
    call: "CallNextHandshakerLocked st ((mgr w)\<lparr>args := a\<rparr>) = Inr (m', acts)" and
    w': "w' = effect (w\<lparr>outstanding := outstanding w - 1\<rparr>) (m', acts)"
    by (blast elim: serve_Complete)
  from out assms(2) have one: "outstanding w = 1" by (auto simp: sound_def)
  have "guarded (history w @ [] @ acts)"
    by (rule guarded_call [OF call assms(3)]) (use one assms(2) in \<open>auto simp: sound_def\<close>)
  with w' show ?thesis by simp
next
  case (Ev_Exec k)
  from assms(1) [unfolded Ev_Exec] obtain acts where
    k: "k < length (posted (engine w))" and
    body: "run_closure (posted (engine w) ! k) = Inr acts" and
    w': "w' = w\<lparr>engine := (engine w)\<lparr>posted := take k (posted (engine w)) @ drop (Suc k) (posted (engine w))\<rparr>,
            history := history w @ acts\<rparr>"
    by (blast elim: serve_Exec)
  from body have "posts acts = []"
    by (cases "posted (engine w) ! k" rule: run_closure.cases) auto
  with assms(3) w' show ?thesis by (auto intro: guarded_quiet)
qed

lemma guarded_fire:
  assumes "fire e w = Inr w'" and "sound w" and "guarded (history w)"
  shows "guarded (history w')"
  using assms(1)
proof (cases rule: fire_cases)
  case blocked
  from blocked_cases [OF blocked(2)] consider "history w' = history w"
    | "w' = enter w" | k where "serve (Ev_Exec k) w = Inr w'" by auto
  then show ?thesis
  proof cases
    case 1
    with assms(3) show ?thesis by simp
  next
    case 2
    have "posts [ExecCtx_enter] = []" by simp
    from guarded_quiet [OF assms(3) this] 2 show ?thesis by simp
  next
    case 3
    from guarded_serve [OF 3 assms(2,3)] show ?thesis .
  qed
next
  case (served w1)
  from guarded_serve [OF served(2) assms(2,3)] have g: "guarded (history w1)" .
  have "posts [ExecCtx_exit] = []" by simp
  from guarded_quiet [OF g this] g wind_up_history [of e "react (reaction_of e)
      (drop (length (history w)) (history w1)) w1"]
  show ?thesis unfolding served(3) by auto
qed

lemma guarded_run: "run evs w = Inr w' \<Longrightarrow> sound w \<Longrightarrow> guarded (history w) \<Longrightarrow> guarded (history w')"
  by (induction evs arbitrary: w) (auto split: sum.splits dest: sound_fire guarded_fire)

lemma guarded_start: "guarded (history start)"
  by (simp add: guarded_def start_def)

text \<open>The account of a callback grows by one with each request and not otherwise.\<close>

lemma account_call:
  assumes "CallNextHandshakerLocked st m = Inr (m', acts)"
  shows "filter (calls cb) acts = []"
    and "length (filter (carries cb) (posts acts)) +
           (if on_handshake_done m' = Some cb then 1 else 0) =
         (if on_handshake_done m = Some cb then 1 else 0)"
proof -
  show "filter (calls cb) acts = []"
  proof (cases "terminal st m")
    case True
    from CallNext_terminal(2) [OF assms True] show ?thesis by auto
  next
    case False
    from CallNext_advance(3) [OF assms False] show ?thesis by simp
  qed
  show "length (filter (carries cb) (posts acts)) +
           (if on_handshake_done m' = Some cb then 1 else 0) =
         (if on_handshake_done m = Some cb then 1 else 0)"
  proof (cases "terminal st m")
    case True
    from CallNext_terminal(2) [OF assms True] show ?thesis
      unfolding CallNext_terminal(1) [OF assms True] by auto
  next
    case False
    show ?thesis
      unfolding CallNext_advance(2,3) [OF assms False] by simp
  qed
qed

lemma account_Shutdown:
  assumes "Shutdown e m = Inr (m', acts)"
  shows "filter (calls cb) acts = []" and "posts acts = []"
    and "on_handshake_done m' = on_handshake_done m"
  using assms by (auto simp: Shutdown_def split: if_splits)

lemma filter_without:
  assumes "k < length q"
  shows "length (filter P (take k q @ drop (Suc k) q)) + (if P (q ! k) then 1 else 0) =
         length (filter P q)"
proof -
  have "length (filter P q) = length (filter P (take k q @ q ! k # drop (Suc k) q))"
    using assms by (simp add: id_take_nth_drop [symmetric])
  then show ?thesis by simp
qed

lemma account_serve:
  assumes "serve e w = Inr w'" and "sound w"
  shows "total cb w' = total cb w + (if asks cb e then 1 else 0)"
proof (cases e)
  case (Ev_Add h)
  with assms show ?thesis
    by (auto simp: total_def invoked_def queued_def held_def Add_def)
next
  case (Ev_DoHandshake ep dl acc c r)
  from assms(1) [unfolded Ev_DoHandshake] obtain a m2 acts where
    idx: "index (mgr w) = 0" and
    call: "CallNextHandshakerLocked OkStatus
       ((mgr w)\<lparr>on_handshake_done := Some c, args := a,
                 deadline_timer_handle := Some (armed w)\<rparr>) = Inr (m2, acts)" and
    w': "w' = effect w (m2, destroy (endpoint (args (mgr w))) @ [Trace_New, Engine_RunAfter (armed w)] @ acts)"
    by (blast elim: serve_DoHandshake)
  from idx assms(2) have none: "on_handshake_done (mgr w) = None" by (auto simp: sound_def)
  from account_call [OF call, of cb] none show ?thesis
    unfolding w' Ev_DoHandshake
    by (simp add: total_def invoked_def queued_def held_def)
next
  case (Ev_Shutdown err r)
  from assms(1) [unfolded Ev_Shutdown] obtain m' acts where
    s: "Shutdown err (mgr w) = Inr (m', acts)" and w': "w' = effect w (m', acts)"
    by (blast elim: serve_Shutdown)
  from account_Shutdown [OF s] show ?thesis
    unfolding w' Ev_Shutdown
    by (simp add: total_def invoked_def queued_def held_def)
next
  case (Ev_Timer r)
  from assms(1) [unfolded Ev_Timer] obtain m' acts where
    s: "Shutdown (ErrorStatus ''Handshake timed out'') (mgr w) = Inr (m', acts)"
    and w': "w' = effect (enter w) (m', acts)"
    by (blast elim: serve_Timer)
  from account_Shutdown [OF s] show ?thesis
    unfolding w' Ev_Timer
    by (simp add: total_def invoked_def queued_def held_def)
next
  case (Ev_Complete a st r)
  from assms(1) [unfolded Ev_Complete] obtain m' acts where
    call: "CallNextHandshakerLocked st ((mgr w)\<lparr>args := a\<rparr>) = Inr (m', acts)" and
    w': "w' = effect (w\<lparr>outstanding := outstanding w - 1\<rparr>) (m', acts)"
    by (blast elim: serve_Complete)
  from account_call [OF call, of cb] show ?thesis
    unfolding w' Ev_Complete
    by (simp add: total_def invoked_def queued_def held_def)
next
  case (Ev_Exec k)
  from assms(1) [unfolded Ev_Exec] obtain acts where
    k: "k < length (posted (engine w))" and
    body: "run_closure (posted (engine w) ! k) = Inr acts" and
    w': "w' = w\<lparr>engine := (engine w)\<lparr>posted := take k (posted (engine w)) @ drop (Suc k) (posted (engine w))\<rparr>,
            history := history w @ acts\<rparr>"
    by (blast elim: serve_Exec)
  from body have "length (filter (calls cb) acts) = (if carries cb (posted (engine w) ! k) then 1 else 0)"
    by (cases "posted (engine w) ! k" rule: run_closure.cases) auto
  with filter_without [OF k, of "carries cb"] show ?thesis
    unfolding w' Ev_Exec
    by (simp add: total_def invoked_def queued_def held_def)
qed

lemma total_react [simp]: "total cb (react r acts w) = total cb w"
  by (simp add: total_def invoked_def queued_def held_def)

lemma total_wind_up [simp]: "total cb (wind_up e w) = total cb w"
  using wind_up_history [of e w]
  by (auto simp: total_def invoked_def queued_def held_def)

lemma account_blocked:
  assumes "blocked e w = Inr w'" and "sound w"
  shows "total cb w' = total cb w"
proof -
  from blocked_cases [OF assms(1)] consider "w' = w" | "w' = enter w"
    | a where "w' = w\<lparr>mgr := (mgr w)\<lparr>args := a\<rparr>, outstanding := outstanding w - 1\<rparr>"
    | k where "serve (Ev_Exec k) w = Inr w'" by auto
  then show ?thesis
  proof cases
    case 1
    then show ?thesis by simp
  next
    case 2
    then show ?thesis by (simp add: total_def invoked_def queued_def held_def)
  next
    case 3
    then show ?thesis by (simp add: total_def invoked_def queued_def held_def)
  next
    case 4
    from account_serve [OF 4 assms(2), of cb] show ?thesis by simp
  qed
qed

lemma stay_blocked: "blocked e w = Inr w' \<Longrightarrow> deadlocked w \<Longrightarrow> deadlocked w'"
  using blocked_cases [of e w w'] by (auto simp del: serve.simps dest: serve_deadlocked)

lemma stay_deadlocked: "fire e w = Inr w' \<Longrightarrow> deadlocked w \<Longrightarrow> deadlocked w'"
  by (auto simp: fire_def dest: stay_blocked)

lemma stay_deadlocked_run: "run evs w = Inr w' \<Longrightarrow> deadlocked w \<Longrightarrow> deadlocked w'"
  by (induction evs arbitrary: w) (auto split: sum.splits dest: stay_deadlocked)

lemma account_fire:
  assumes "fire e w = Inr w'" and "sound w"
  shows "total cb w' = total cb w + (if asks cb e \<and> \<not> deadlocked w then 1 else 0)"
  using assms(1)
proof (cases rule: fire_cases)
  case blocked
  from account_blocked [OF blocked(2) assms(2), of cb] blocked(1) show ?thesis by simp
next
  case (served w1)
  from account_serve [OF served(2) assms(2), of cb] served(1) show ?thesis
    unfolding served(3) by simp
qed

lemma account_run:
  assumes "run evs w = Inr w'" and "sound w"
  shows "total cb w' \<le> total cb w + requested cb evs"
    and "\<not> deadlocked w' \<Longrightarrow> total cb w' = total cb w + requested cb evs"
proof -
  have "total cb w' \<le> total cb w + requested cb evs \<and>
        (\<not> deadlocked w' \<longrightarrow> total cb w' = total cb w + requested cb evs)"
    using assms
  proof (induction evs arbitrary: w)
    case Nil
    then show ?case by (simp add: requested_def)
  next
    case (Cons e es)
    from Cons.prems(1) obtain w1 where f: "fire e w = Inr w1" and r: "run es w1 = Inr w'"
      by (auto split: sum.splits)
    from sound_fire [OF f Cons.prems(2)] have s1: "sound w1" .
    note ih = Cons.IH [OF r s1]
    note step = account_fire [OF f Cons.prems(2), of cb]
    have "\<not> deadlocked w' \<Longrightarrow> \<not> deadlocked w"
      using stay_deadlocked [OF f] stay_deadlocked_run [OF r] by blast
    with ih step show ?case by (auto simp: requested_def split: if_splits)
  qed
  then show "total cb w' \<le> total cb w + requested cb evs"
    and "\<not> deadlocked w' \<Longrightarrow> total cb w' = total cb w + requested cb evs" by simp_all
qed

lemma total_start: "total cb start = 0"
  by (simp add: total_def invoked_def queued_def held_def start_def HandshakeManager_def)

text \<open>The history only grows, and the cursor with its invocations.\<close>

lemma grow_call:
  assumes "CallNextHandshakerLocked st m = Inr (m', acts)"
  shows "index m' = index m + length (filter is_invoke acts)"
proof (cases "terminal st m")
  case True
  from CallNext_terminal(2) [OF assms True] obtain sil where "list_all silent sil"
    and "acts = sil @ [Engine_Cancel (deadline_timer_handle m),
       Engine_Run (Terminal_closure (on_handshake_done m)
         (if ok st then (if is_shutdown m then Failure (ErrorStatus ''handshaker shutdown'')
                         else Args_ptr)
          else Failure st))]" by blast
  then have "filter is_invoke acts = []" by simp
  then show ?thesis unfolding CallNext_terminal(1) [OF assms True] by simp
next
  case False
  show ?thesis unfolding CallNext_advance(2,3) [OF assms False] by simp
qed

lemma grow_Shutdown:
  assumes "Shutdown e m = Inr (m', acts)"
  shows "index m' = index m + length (filter is_invoke acts)"
  using assms by (auto simp: Shutdown_def split: if_splits)

lemma grow_effect:
  assumes "index m' = index (mgr w) + length (filter is_invoke acts)"
    and "history w0 = history w @ pre" and "filter is_invoke pre = []"
  shows "\<exists>more. history (effect w0 (m', acts)) = history w @ more \<and>
           index (mgr (effect w0 (m', acts))) = index (mgr w) + length (filter is_invoke more)"
  using assms by (intro exI [of _ "pre @ acts"]) simp

lemma grow_serve:
  assumes "serve e w = Inr w'"
  shows "\<exists>more. history w' = history w @ more \<and>
           index (mgr w') = index (mgr w) + length (filter is_invoke more)"
proof (cases e)
  case (Ev_Add h)
  with assms show ?thesis by (intro exI [of _ "[]"]) (auto simp: Add_def)
next
  case (Ev_DoHandshake ep dl acc c r)
  from assms(1) [unfolded Ev_DoHandshake] obtain a m2 acts where
    call: "CallNextHandshakerLocked OkStatus
       ((mgr w)\<lparr>on_handshake_done := Some c, args := a,
                 deadline_timer_handle := Some (armed w)\<rparr>) = Inr (m2, acts)" and
    w': "w' = effect w (m2, destroy (endpoint (args (mgr w))) @ [Trace_New, Engine_RunAfter (armed w)] @ acts)"
    by (blast elim: serve_DoHandshake)
  show ?thesis unfolding w'
    by (rule grow_effect [where pre = "[]"]) (simp_all add: grow_call [OF call])
next
  case (Ev_Shutdown err r)
  from assms(1) [unfolded Ev_Shutdown] obtain m' acts where
    s: "Shutdown err (mgr w) = Inr (m', acts)" and w': "w' = effect w (m', acts)"
    by (blast elim: serve_Shutdown)
  show ?thesis unfolding w'
    by (rule grow_effect [where pre = "[]"]) (simp_all add: grow_Shutdown [OF s])
next
  case (Ev_Timer r)
  from assms(1) [unfolded Ev_Timer] obtain m' acts where
    s: "Shutdown (ErrorStatus ''Handshake timed out'') (mgr w) = Inr (m', acts)"
    and w': "w' = effect (enter w) (m', acts)"
    by (blast elim: serve_Timer)
  show ?thesis unfolding w'
    by (rule grow_effect [where pre = "[ExecCtx_enter]"]) (simp_all add: grow_Shutdown [OF s])
next
  case (Ev_Complete a st r)
  from assms(1) [unfolded Ev_Complete] obtain m' acts where
    call: "CallNextHandshakerLocked st ((mgr w)\<lparr>args := a\<rparr>) = Inr (m', acts)" and
    w': "w' = effect (w\<lparr>outstanding := outstanding w - 1\<rparr>) (m', acts)"
    by (blast elim: serve_Complete)
  show ?thesis unfolding w'
    by (rule grow_effect [where pre = "[]"]) (simp_all add: grow_call [OF call])
next
  case (Ev_Exec k)
  from assms(1) [unfolded Ev_Exec] obtain acts where
    body: "run_closure (posted (engine w) ! k) = Inr acts" and
    w': "w' = w\<lparr>engine := (engine w)\<lparr>posted := take k (posted (engine w)) @ drop (Suc k) (posted (engine w))\<rparr>,
            history := history w @ acts\<rparr>"
    by (blast elim: serve_Exec)
  from body have "filter is_invoke acts = []"
    by (cases "posted (engine w) ! k" rule: run_closure.cases) auto
  then show ?thesis unfolding w' by (intro exI [of _ acts]) simp
qed

lemma grow_fire:
  assumes "fire e w = Inr w'"
  shows "\<exists>more. history w' = history w @ more \<and>
           index (mgr w') = index (mgr w) + length (filter is_invoke more)"
  using assms
proof (cases rule: fire_cases)
  case blocked
  from blocked_cases [OF blocked(2)] consider "w' = w" | "w' = enter w"
    | a where "w' = w\<lparr>mgr := (mgr w)\<lparr>args := a\<rparr>, outstanding := outstanding w - 1\<rparr>"
    | k where "serve (Ev_Exec k) w = Inr w'" by auto
  then show ?thesis
  proof cases
    case 1
    then show ?thesis by simp
  next
    case 2
    then show ?thesis by (intro exI [of _ "[ExecCtx_enter]"]) simp
  next
    case 3
    then show ?thesis by simp
  next
    case 4
    then show ?thesis by (rule grow_serve)
  qed
next
  case (served w1)
  from grow_serve [OF served(2)] obtain more where
    more: "history w1 = history w @ more"
      "index (mgr w1) = index (mgr w) + length (filter is_invoke more)" by blast
  from wind_up_history [of e "react (reaction_of e) (drop (length (history w)) (history w1)) w1"]
  show ?thesis
  proof
    assume "history (wind_up e (react (reaction_of e) (drop (length (history w)) (history w1)) w1)) =
        history (react (reaction_of e) (drop (length (history w)) (history w1)) w1)"
    with more show ?thesis unfolding served(3) by (intro exI [of _ more]) simp
  next
    assume "history (wind_up e (react (reaction_of e) (drop (length (history w)) (history w1)) w1)) =
        history (react (reaction_of e) (drop (length (history w)) (history w1)) w1) @ [ExecCtx_exit]"
    with more show ?thesis unfolding served(3) by (intro exI [of _ "more @ [ExecCtx_exit]"]) simp
  qed
qed

lemma grow_run:
  "run evs w = Inr w' \<Longrightarrow>
     \<exists>more. history w' = history w @ more \<and>
       index (mgr w') = index (mgr w) + length (filter is_invoke more)"
proof (induction evs arbitrary: w)
  case Nil
  then show ?case by simp
next
  case (Cons e es)
  from Cons.prems obtain w1 where f: "fire e w = Inr w1" and r: "run es w1 = Inr w'"
    by (auto split: sum.splits)
  from grow_fire [OF f] obtain m1 where
    "history w1 = history w @ m1" "index (mgr w1) = index (mgr w) + length (filter is_invoke m1)"
    by blast
  moreover from Cons.IH [OF r] obtain m2 where
    "history w' = history w1 @ m2" "index (mgr w') = index (mgr w1) + length (filter is_invoke m2)"
    by blast
  ultimately have "history w' = history w @ (m1 @ m2) \<and>
    index (mgr w') = index (mgr w) + length (filter is_invoke (m1 @ m2))" by simp
  then show ?case by blast
qed


text \<open>Once the latch is set it stays set, and no handshaker is called.\<close>

lemma latch_call:
  assumes "CallNextHandshakerLocked st m = Inr (m', acts)"
  shows "is_shutdown m \<Longrightarrow> is_shutdown m'" and "is_shutdown m' \<Longrightarrow> filter hs_call acts = []"
proof -
  show "is_shutdown m'" if "is_shutdown m"
  proof -
    from that have t: "terminal st m" by (simp add: terminal_def)
    show ?thesis unfolding CallNext_terminal(1) [OF assms t] by simp
  qed
  show "filter hs_call acts = []" if "is_shutdown m'"
  proof (cases "terminal st m")
    case True
    from CallNext_terminal(2) [OF assms True] show ?thesis by auto
  next
    case False
    then have "\<not> is_shutdown m" by (simp add: terminal_def)
    with that show ?thesis unfolding CallNext_advance(2) [OF assms False] by simp
  qed
qed

lemma hs_call_closure: "run_closure c = Inr acts \<Longrightarrow> filter hs_call acts = []"
  by (cases c rule: run_closure.cases) auto

lemma quiet_serve:
  assumes "serve e w = Inr w'" and "is_shutdown (mgr w)"
  shows "is_shutdown (mgr w') \<and> sent w' = sent w"
proof (cases e)
  case (Ev_Add h)
  with assms show ?thesis by (auto simp: Add_def sent_def)
next
  case (Ev_DoHandshake ep dl acc c r)
  from assms(1) [unfolded Ev_DoHandshake] obtain a m2 acts where
    call: "CallNextHandshakerLocked OkStatus
       ((mgr w)\<lparr>on_handshake_done := Some c, args := a,
                 deadline_timer_handle := Some (armed w)\<rparr>) = Inr (m2, acts)" and
    w': "w' = effect w (m2, destroy (endpoint (args (mgr w))) @ [Trace_New, Engine_RunAfter (armed w)] @ acts)"
    by (blast elim: serve_DoHandshake)
  from latch_call(1) [OF call] assms(2) have "is_shutdown m2" by simp
  with latch_call(2) [OF call] show ?thesis unfolding w' by (simp add: sent_def)
next
  case (Ev_Shutdown err r)
  with assms show ?thesis by (auto simp: lift_def Shutdown_latched sent_def)
next
  case (Ev_Timer r)
  with assms show ?thesis by (auto simp: lift_def Shutdown_latched sent_def split: if_splits)
next
  case (Ev_Complete a st r)
  from assms(1) [unfolded Ev_Complete] obtain m' acts where
    call: "CallNextHandshakerLocked st ((mgr w)\<lparr>args := a\<rparr>) = Inr (m', acts)" and
    w': "w' = effect (w\<lparr>outstanding := outstanding w - 1\<rparr>) (m', acts)"
    by (blast elim: serve_Complete)
  from latch_call(1) [OF call] assms(2) have "is_shutdown m'" by simp
  with latch_call(2) [OF call] show ?thesis unfolding w' by (simp add: sent_def)
next
  case (Ev_Exec k)
  from assms(1) [unfolded Ev_Exec] obtain acts where
    body: "run_closure (posted (engine w) ! k) = Inr acts" and
    w': "w' = w\<lparr>engine := (engine w)\<lparr>posted := take k (posted (engine w)) @ drop (Suc k) (posted (engine w))\<rparr>,
            history := history w @ acts\<rparr>"
    by (blast elim: serve_Exec)
  from hs_call_closure [OF body] assms(2) show ?thesis unfolding w' by (simp add: sent_def)
qed

lemma sent_react [simp]: "sent (react r acts w) = sent w"
  by (simp add: sent_def)

lemma sent_wind_up [simp]: "sent (wind_up e w) = sent w"
  using wind_up_history [of e w] by (auto simp: sent_def)

lemma quiet_blocked:
  assumes "blocked e w = Inr w'"
  shows "is_shutdown (mgr w') = is_shutdown (mgr w) \<and> sent w' = sent w"
proof -
  from blocked_cases [OF assms] consider "w' = w" | "w' = enter w"
    | a where "w' = w\<lparr>mgr := (mgr w)\<lparr>args := a\<rparr>, outstanding := outstanding w - 1\<rparr>"
    | k where "serve (Ev_Exec k) w = Inr w'" by auto
  then show ?thesis
  proof cases
    case 4
    then obtain acts where
      body: "run_closure (posted (engine w) ! k) = Inr acts" and
      w': "w' = w\<lparr>engine := (engine w)\<lparr>posted := take k (posted (engine w)) @ drop (Suc k) (posted (engine w))\<rparr>,
            history := history w @ acts\<rparr>"
      by (blast elim: serve_Exec)
    from hs_call_closure [OF body] show ?thesis unfolding w' by (simp add: sent_def)
  qed (simp_all add: sent_def)
qed

lemma quiet_fire:
  assumes "fire e w = Inr w'" and "is_shutdown (mgr w)"
  shows "is_shutdown (mgr w') \<and> sent w' = sent w"
  using assms(1)
proof (cases rule: fire_cases)
  case blocked
  from quiet_blocked [OF blocked(2)] assms(2) show ?thesis by simp
next
  case (served w1)
  from quiet_serve [OF served(2) assms(2)] show ?thesis unfolding served(3) by simp
qed

lemma quiet_run:
  "run evs w = Inr w' \<Longrightarrow> is_shutdown (mgr w) \<Longrightarrow> is_shutdown (mgr w') \<and> sent w' = sent w"
proof (induction evs arbitrary: w)
  case Nil
  then show ?case by simp
next
  case (Cons e es)
  from Cons.prems(1) obtain w1 where f: "fire e w = Inr w1" and r: "run es w1 = Inr w'"
    by (auto split: sum.splits)
  from quiet_fire [OF f Cons.prems(2)] Cons.IH [OF r] show ?case by simp
qed

text \<open>The event that sets the latch calls at most the handshaker in progress.\<close>

lemma latch_serve:
  assumes "serve e w = Inr w'" and "sound w"
    and "\<not> is_shutdown (mgr w)" and "is_shutdown (mgr w')" and "\<not> deadlocked w"
  shows "sent w' = sent w \<or>
         (0 < index (mgr w) \<and> outstanding w = 1 \<and>
          (\<exists>err. sent w' = sent w @ [Hs_Shutdown (handshakers (mgr w) ! (index (mgr w) - 1)) err]))"
proof (cases e)
  case (Ev_Add h)
  with assms show ?thesis by (auto simp: Add_def)
next
  case (Ev_DoHandshake ep dl acc c r)
  from assms(1) [unfolded Ev_DoHandshake] obtain a m2 acts where
    call: "CallNextHandshakerLocked OkStatus
       ((mgr w)\<lparr>on_handshake_done := Some c, args := a,
                 deadline_timer_handle := Some (armed w)\<rparr>) = Inr (m2, acts)" and
    w': "w' = effect w (m2, destroy (endpoint (args (mgr w))) @ [Trace_New, Engine_RunAfter (armed w)] @ acts)"
    by (blast elim: serve_DoHandshake)
  from assms(4) have "is_shutdown m2" unfolding w' by simp
  with latch_call(2) [OF call] show ?thesis unfolding w' by (simp add: sent_def)
next
  case (Ev_Shutdown err r)
  from assms(1) [unfolded Ev_Shutdown] obtain m' acts where
    s: "Shutdown err (mgr w) = Inr (m', acts)" and w': "w' = effect w (m', acts)"
    by (blast elim: serve_Shutdown)
  from assms(2,3,5) have "0 < index (mgr w) \<Longrightarrow> outstanding w = 1"
    by (auto simp: sound_def)
  with Shutdown_fresh(5) [OF s assms(3)] show ?thesis unfolding w' by (auto simp: sent_def)
next
  case (Ev_Timer r)
  from assms(1) [unfolded Ev_Timer] obtain m' acts where
    s: "Shutdown (ErrorStatus ''Handshake timed out'') (mgr w) = Inr (m', acts)"
    and w': "w' = effect (enter w) (m', acts)"
    by (blast elim: serve_Timer)
  from assms(2,3,5) have "0 < index (mgr w) \<Longrightarrow> outstanding w = 1"
    by (auto simp: sound_def)
  with Shutdown_fresh(5) [OF s assms(3)] show ?thesis unfolding w' by (auto simp: sent_def)
next
  case (Ev_Complete a st r)
  from assms(1) [unfolded Ev_Complete] obtain m' acts where
    call: "CallNextHandshakerLocked st ((mgr w)\<lparr>args := a\<rparr>) = Inr (m', acts)" and
    w': "w' = effect (w\<lparr>outstanding := outstanding w - 1\<rparr>) (m', acts)"
    by (blast elim: serve_Complete)
  from assms(4) have "is_shutdown m'" unfolding w' by simp
  with latch_call(2) [OF call] show ?thesis unfolding w' by (simp add: sent_def)
next
  case (Ev_Exec k)
  from assms(1) [unfolded Ev_Exec] obtain acts where
    w': "w' = w\<lparr>engine := (engine w)\<lparr>posted := take k (posted (engine w)) @ drop (Suc k) (posted (engine w))\<rparr>,
            history := history w @ acts\<rparr>"
    by (blast elim: serve_Exec)
  with assms(3,4) show ?thesis by simp
qed


lemma latch_fire:
  assumes "fire e w = Inr w'" and "sound w"
    and "\<not> is_shutdown (mgr w)" and "is_shutdown (mgr w')"
  shows "sent w' = sent w \<or>
         (0 < index (mgr w) \<and> outstanding w = 1 \<and>
          (\<exists>err. sent w' = sent w @ [Hs_Shutdown (handshakers (mgr w) ! (index (mgr w) - 1)) err]))"
  using assms(1)
proof (cases rule: fire_cases)
  case blocked
  from quiet_blocked [OF blocked(2)] show ?thesis by simp
next
  case (served w1)
  from assms(4) have "is_shutdown (mgr w1)" unfolding served(3) by simp
  from latch_serve [OF served(2) assms(2,3) this served(1)] show ?thesis
    unfolding served(3) by simp
qed

text \<open>
  In a sound world an event fails only where the environment offers nothing to run (no
  continuation outstanding, no timer armed, no such closure) or where \<^verbatim>\<open>DoHandshake\<close>
  finds the cursor past 0: the \<^verbatim>\<open>CHECK\<close> of \<^verbatim>\<open>CallNextHandshakerLocked\<close> holds, the
  subscript of \<^verbatim>\<open>Shutdown\<close> is in range and no empty callback is called.
\<close>

lemma serve_faults:
  assumes "sound w" and "serve e w = Inl f"
  shows "(f = Check_failed \<and> (\<exists>ep dl acc cb r. e = Ev_DoHandshake ep dl acc cb r) \<and>
            index (mgr w) \<noteq> 0) \<or>
         (f = No_continuation \<and> (\<exists>a st r. e = Ev_Complete a st r) \<and> outstanding w = 0) \<or>
         (f = No_such_task \<and>
            ((\<exists>r. e = Ev_Timer r) \<and> armed w = 0 \<or>
             (\<exists>k. e = Ev_Exec k \<and> length (posted (engine w)) \<le> k)))"
proof (cases e)
  case (Ev_Add h)
  with assms show ?thesis by simp
next
  case (Ev_DoHandshake ep dl acc cb r)
  with assms(2) show ?thesis
    by (auto simp: lift_def DoHandshake_def CallNextHandshakerLocked_def Let_def
        split: if_splits sum.splits)
next
  case (Ev_Shutdown err r)
  from assms(1) have "index (mgr w) \<le> length (handshakers (mgr w))" by (simp add: sound_def)
  with assms(2) Ev_Shutdown show ?thesis
    by (auto simp: lift_def Shutdown_def split: if_splits sum.splits)
next
  case (Ev_Timer r)
  from assms(1) have "index (mgr w) \<le> length (handshakers (mgr w))" by (simp add: sound_def)
  with assms(2) Ev_Timer show ?thesis
    by (auto simp: lift_def Shutdown_def split: if_splits sum.splits)
next
  case (Ev_Complete a st r)
  from assms(1) have "index (mgr w) \<le> length (handshakers (mgr w))" by (simp add: sound_def)
  from CallNext_checked [of "(mgr w)\<lparr>args := a\<rparr>" st] this
  obtain m' acts where "CallNextHandshakerLocked st ((mgr w)\<lparr>args := a\<rparr>) = Inr (m', acts)"
    by auto
  with assms(2) Ev_Complete show ?thesis
    by (auto simp: lift_def split: if_splits)
next
  case (Ev_Exec k)
  show ?thesis
  proof (cases "k < length (posted (engine w))")
    case True
    then have "posted (engine w) ! k \<in> set (posted (engine w))" by simp
    with assms(1) obtain cb res where "posted (engine w) ! k = Terminal_closure (Some cb) res"
      unfolding sound_def by blast
    with assms(2) Ev_Exec True show ?thesis by (simp add: Let_def)
  next
    case False
    with assms(2) Ev_Exec show ?thesis by (simp add: Let_def)
  qed
qed


lemma fire_faults:
  assumes "sound w" and "fire e w = Inl f"
  shows "(f = Check_failed \<and> (\<exists>ep dl acc cb r. e = Ev_DoHandshake ep dl acc cb r) \<and>
            index (mgr w) \<noteq> 0) \<or>
         (f = No_continuation \<and> (\<exists>a st r. e = Ev_Complete a st r) \<and> outstanding w = 0) \<or>
         (f = No_such_task \<and>
            ((\<exists>r. e = Ev_Timer r) \<and> armed w = 0 \<or>
             (\<exists>k. e = Ev_Exec k \<and> length (posted (engine w)) \<le> k)))"
proof (cases "deadlocked w")
  case False
  with assms(2) have "serve e w = Inl f" by (auto simp: fire_def split: sum.splits)
  from serve_faults [OF assms(1) this] show ?thesis .
next
  case True
  with assms(2) have b: "blocked e w = Inl f" by (simp add: fire_def)
  show ?thesis
  proof (cases e)
    case (Ev_Exec k)
    with b have "serve e w = Inl f" by simp
    from serve_faults [OF assms(1) this] show ?thesis .
  qed (use b in \<open>auto split: if_splits\<close>)
qed

text \<open>Every world that is not deadlocked can be brought to rest.\<close>

lemma progress_exec:
  assumes "sound w" and "k < length (posted (engine w))"
  shows "\<exists>c res w'. posted (engine w) ! k = Terminal_closure (Some c) res \<and>
           fire (Ev_Exec k) w = Inr w' \<and>
           history w' = history w @
             [ExecCtx_enter, Call_on_handshake_done c res, Destroy_callback c, ExecCtx_exit] \<and>
           posted (engine w') = take k (posted (engine w)) @ drop (Suc k) (posted (engine w)) \<and>
           outstanding w' = outstanding w \<and> deadlocked w' = deadlocked w"
proof -
  from assms(2) have "posted (engine w) ! k \<in> set (posted (engine w))" by simp
  with assms(1) obtain c res where c: "posted (engine w) ! k = Terminal_closure (Some c) res"
    unfolding sound_def by blast
  with assms(2) show ?thesis by (simp add: fire_Exec_eq Let_def)
qed

lemma progress_complete:
  assumes "sound w" and "\<not> deadlocked w" and "outstanding w = 1"
  shows "\<exists>w'. fire (Ev_Complete a st Returns) w = Inr w' \<and> \<not> deadlocked w' \<and>
           (if \<not> ok st \<or> is_shutdown (mgr w) \<or> exit_early a \<or>
               index (mgr w) = length (handshakers (mgr w))
            then outstanding w' = 0 \<and>
                 posted (engine w') = posted (engine w) @
                   [Terminal_closure (on_handshake_done (mgr w))
                      (if ok st then (if is_shutdown (mgr w)
                                      then Failure (ErrorStatus ''handshaker shutdown'')
                                      else Args_ptr)
                       else Failure st)]
            else outstanding w' = 1 \<and> index (mgr w') = Suc (index (mgr w)) \<and>
                 posted (engine w') = posted (engine w))"
proof -
  let ?m = "(mgr w)\<lparr>args := a\<rparr>"
  from assms(1) have "index ?m \<le> length (handshakers ?m)" by (simp add: sound_def)
  from CallNext_checked [OF this, of st] obtain m' acts where
    call: "CallNextHandshakerLocked st ?m = Inr (m', acts)" by blast
  with assms(2,3) have f: "fire (Ev_Complete a st Returns) w =
      Inr (effect (w\<lparr>outstanding := 0\<rparr>) (m', acts))"
    by (simp add: fire_def lift_def)
  show ?thesis
  proof (cases "terminal st ?m")
    case True
    from CallNext_terminal(2) [OF call True] obtain sil where sil: "list_all silent sil"
      and acts: "acts = sil @ [Engine_Cancel (deadline_timer_handle ?m),
         Engine_Run (Terminal_closure (on_handshake_done ?m)
           (if ok st then (if is_shutdown ?m then Failure (ErrorStatus ''handshaker shutdown'')
                           else Args_ptr)
            else Failure st))]" by blast
    from True have c: "\<not> ok st \<or> is_shutdown (mgr w) \<or> exit_early a \<or>
        index (mgr w) = length (handshakers (mgr w))" by (simp add: terminal_def)
    from sil have "filter is_invoke acts = []" and "posts acts =
        [Terminal_closure (on_handshake_done (mgr w))
           (if ok st then (if is_shutdown (mgr w) then Failure (ErrorStatus ''handshaker shutdown'')
                           else Args_ptr)
            else Failure st)]"
      by (simp_all add: acts)
    with f c assms(2) show ?thesis by simp
  next
    case False
    from False have c: "\<not> (\<not> ok st \<or> is_shutdown (mgr w) \<or> exit_early a \<or>
        index (mgr w) = length (handshakers (mgr w)))" by (simp add: terminal_def)
    from CallNext_advance(2,3) [OF call False] f c assms(2) show ?thesis by simp
  qed
qed

lemma drain:
  "sound w \<Longrightarrow> \<not> deadlocked w \<Longrightarrow> outstanding w = 0 \<Longrightarrow> length (posted (engine w)) = n \<Longrightarrow>
     \<exists>w'. run (replicate n (Ev_Exec 0)) w = Inr w' \<and> \<not> deadlocked w' \<and>
       outstanding w' = 0 \<and> posted (engine w') = []"
proof (induction n arbitrary: w)
  case 0
  then show ?case by simp
next
  case (Suc n)
  from Suc.prems(4) have "0 < length (posted (engine w))" by simp
  from progress_exec [OF Suc.prems(1) this] obtain w1 where
    f: "fire (Ev_Exec 0) w = Inr w1" and
    w1: "posted (engine w1) = take 0 (posted (engine w)) @ drop (Suc 0) (posted (engine w))"
      "outstanding w1 = outstanding w" "deadlocked w1 = deadlocked w" by blast
  from sound_fire [OF f Suc.prems(1)] have "sound w1" .
  moreover have "\<not> deadlocked w1" "outstanding w1 = 0" "length (posted (engine w1)) = n"
    using Suc.prems(2,3,4) w1 by simp_all
  ultimately obtain w' where "run (replicate n (Ev_Exec 0)) w1 = Inr w'"
    "\<not> deadlocked w'" "outstanding w' = 0" "posted (engine w') = []"
    using Suc.IH by blast
  with f show ?case by simp
qed

lemma requested_Exec: "requested cb (replicate n (Ev_Exec 0)) = 0"
  by (induction n) (simp_all add: requested_def)

lemma rest_reachable:
  assumes "sound w" and "\<not> deadlocked w"
  shows "\<exists>evs' w'. requested cb evs' = 0 \<and> run evs' w = Inr w' \<and> \<not> deadlocked w' \<and>
           outstanding w' = 0 \<and> posted (engine w') = []"
proof (cases "outstanding w = 0")
  case True
  from drain [OF assms True refl] requested_Exec show ?thesis by blast
next
  case False
  with assms have one: "outstanding w = 1" by (auto simp: sound_def)
  from progress_complete [OF assms one, of "args (mgr w)" "ErrorStatus ''cancelled''"]
  obtain w1 where
    f: "fire (Ev_Complete (args (mgr w)) (ErrorStatus ''cancelled'') Returns) w = Inr w1"
    and nd: "\<not> deadlocked w1" and o: "outstanding w1 = 0" by auto
  from sound_fire [OF f assms(1)] have "sound w1" .
  from drain [OF this nd o refl] obtain w' where
    r: "run (replicate (length (posted (engine w1))) (Ev_Exec 0)) w1 = Inr w'"
    and rest: "\<not> deadlocked w'" "outstanding w' = 0" "posted (engine w') = []" by blast
  let ?evs = "Ev_Complete (args (mgr w)) (ErrorStatus ''cancelled'') Returns #
              replicate (length (posted (engine w1))) (Ev_Exec 0)"
  have "requested cb ?evs = 0" using requested_Exec [of cb] by (simp add: requested_def)
  moreover from f r have "run ?evs w = Inr w'" by simp
  ultimately show ?thesis using rest by blast
qed

text \<open>A deadlock stays: the manager keeps the callback and posts nothing more.\<close>

lemma posts_closure: "run_closure c = Inr acts \<Longrightarrow> posts acts = []"
  by (cases c rule: run_closure.cases) auto

lemma stuck_fire:
  assumes "fire e w = Inr w'" and "deadlocked w"
  shows "deadlocked w' \<and> on_handshake_done (mgr w') = on_handshake_done (mgr w) \<and>
         posts (history w') = posts (history w)"
proof -
  from assms have b: "blocked e w = Inr w'" by (simp add: fire_def)
  from blocked_cases [OF b] consider "w' = w" | "w' = enter w"
    | a where "w' = w\<lparr>mgr := (mgr w)\<lparr>args := a\<rparr>, outstanding := outstanding w - 1\<rparr>"
    | k where "serve (Ev_Exec k) w = Inr w'" by auto
  then show ?thesis
  proof cases
    case 4
    then obtain acts where
      body: "run_closure (posted (engine w) ! k) = Inr acts" and
      w': "w' = w\<lparr>engine := (engine w)\<lparr>posted := take k (posted (engine w)) @ drop (Suc k) (posted (engine w))\<rparr>,
            history := history w @ acts\<rparr>"
      by (blast elim: serve_Exec)
    from posts_closure [OF body] assms(2) show ?thesis unfolding w' by simp
  qed (use assms(2) in simp_all)
qed

lemma stuck_run:
  "run evs w = Inr w' \<Longrightarrow> deadlocked w \<Longrightarrow>
     deadlocked w' \<and> on_handshake_done (mgr w') = on_handshake_done (mgr w) \<and>
     posts (history w') = posts (history w)"
proof (induction evs arbitrary: w)
  case Nil
  then show ?case by simp
next
  case (Cons e es)
  from Cons.prems(1) obtain w1 where f: "fire e w = Inr w1" and r: "run es w1 = Inr w'"
    by (auto split: sum.splits)
  from stuck_fire [OF f Cons.prems(2)] Cons.IH [OF r] show ?case by simp
qed

text \<open>Without a handshaker that calls back inside the manager's call there is no deadlock.\<close>

lemma calm_fire:
  assumes "fire e w = Inr w'" and "\<not> deadlocked w" and "reaction_of e = Returns"
  shows "\<not> deadlocked w'"
  using assms(1)
proof (cases rule: fire_cases)
  case blocked
  with assms(2) show ?thesis by simp
next
  case (served w1)
  from serve_deadlocked [OF served(2)] assms(2,3) show ?thesis unfolding served(3) by simp
qed

lemma calm_run:
  "run evs w = Inr w' \<Longrightarrow> \<not> deadlocked w \<Longrightarrow> \<forall>e \<in> set evs. reaction_of e = Returns \<Longrightarrow>
     \<not> deadlocked w'"
proof (induction evs arbitrary: w)
  case Nil
  then show ?case by simp
next
  case (Cons e es)
  from Cons.prems(1) obtain w1 where f: "fire e w = Inr w1" and r: "run es w1 = Inr w'"
    by (auto split: sum.splits)
  from calm_fire [OF f Cons.prems(2)] Cons.prems(3) have "\<not> deadlocked w1" by simp
  from Cons.IH [OF r this] Cons.prems(3) show ?case by simp
qed

section \<open>The claims about runs\<close>

text \<open>
  Claim C8. The cursor of a new manager is 0. In every world a run reaches, the cursor is
  the number of handshakers invoked so far and is at most the number of handshakers; and
  whatever happens next, the cursor does not decrease, grows by exactly the number of
  handshakers invoked meanwhile, and stays at most the number of handshakers.
\<close>

theorem index_monotone_bounded:
  assumes "run evs start = Inr w" and "run evs' w = Inr w'"
  shows "index (mgr start) = 0 \<and>
         index (mgr w) = length (filter is_invoke (history w)) \<and>
         index (mgr w) \<le> length (handshakers (mgr w)) \<and>
         (\<exists>more. history w' = history w @ more \<and>
            index (mgr w') = index (mgr w) + length (filter is_invoke more)) \<and>
         index (mgr w) \<le> index (mgr w') \<and>
         index (mgr w') \<le> length (handshakers (mgr w'))"
proof -
  from sound_run [OF assms(1) sound_start] have w: "sound w" .
  from sound_run [OF assms(2) w] have w': "sound w'" .
  have "index (mgr start) = 0" by (simp add: start_def HandshakeManager_def)
  moreover from w have "index (mgr w) = length (filter is_invoke (history w))"
    and "index (mgr w) \<le> length (handshakers (mgr w))" by (simp_all add: sound_def)
  moreover from w' have "index (mgr w') \<le> length (handshakers (mgr w'))"
    by (simp add: sound_def)
  moreover from grow_run [OF assms(2)] obtain more where
    more: "history w' = history w @ more"
      "index (mgr w') = index (mgr w) + length (filter is_invoke more)" by blast
  moreover from more(2) have "index (mgr w) \<le> index (mgr w')" by simp
  ultimately show ?thesis by blast
qed

theorem index_monotone_bounded_witness:
  "index (mgr registered) = 0 \<and> index (mgr handshaking) = 1 \<and>
   index (mgr registered) \<le> index (mgr handshaking) \<and>
   index (mgr handshaking) \<le> length (handshakers (mgr handshaking))"
proof -
  have "run [Ev_DoHandshake (Some 1) 0 None 7 Returns] registered = Inr handshaking"
    using story_invoked by simp
  from index_monotone_bounded [OF story_registered this] show ?thesis
    by (simp add: registered_def handshaking_def in_progress_def start_def Add_def
        HandshakeManager_def)
qed

text \<open>
  Claim C6. In a world a run reaches: if \<open>is_shutdown\<close> is set it stays set, and no event
  after it makes the manager call \<^verbatim>\<open>DoHandshake\<close> or \<^verbatim>\<open>Shutdown\<close> on any handshaker; the
  event that sets \<open>is_shutdown\<close> calls no handshaker, or calls \<^verbatim>\<open>Shutdown\<close> on
  \<open>handshakers ! (index - 1)\<close>, once, and only with \<open>0 < index\<close> and that handshaker in
  progress; and once a terminal closure has been posted \<open>is_shutdown\<close> is set, so that no
  handshaker is called after it.
\<close>

theorem no_handshaker_call_once_shut_down:
  assumes "run evs start = Inr w" and "fire e w = Inr w1" and "run evs' w = Inr w'"
  shows "(is_shutdown (mgr w) \<longrightarrow> is_shutdown (mgr w') \<and> sent w' = sent w) \<and>
         (\<not> is_shutdown (mgr w) \<and> is_shutdown (mgr w1) \<longrightarrow>
            sent w1 = sent w \<or>
            (0 < index (mgr w) \<and> outstanding w = 1 \<and>
             (\<exists>err. sent w1 = sent w @ [Hs_Shutdown (handshakers (mgr w) ! (index (mgr w) - 1)) err]))) \<and>
         (posts (history w) \<noteq> [] \<longrightarrow> is_shutdown (mgr w))"
proof -
  from sound_run [OF assms(1) sound_start] have w: "sound w" .
  then have "posts (history w) \<noteq> [] \<longrightarrow> is_shutdown (mgr w)" by (simp add: sound_def)
  with quiet_run [OF assms(3)] latch_fire [OF assms(2) w] show ?thesis by blast
qed


theorem no_handshaker_call_once_shut_down_witness:
  "sent timed_out = sent handshaking @ [Hs_Shutdown ''tls'' (ErrorStatus ''Handshake timed out'')] \<and>
   is_shutdown (mgr timed_out) \<and> sent at_rest = sent timed_out \<and>
   posts (history at_rest) \<noteq> [] \<and> is_shutdown (mgr at_rest)"
proof -
  have 1: "run [] handshaking = Inr handshaking" by simp
  have 2: "fire (Ev_Shutdown OkStatus Returns) timed_out = Inr timed_out"
    by (simp add: fire_def timed_out_def handshaking_def Shutdown_def lift_def effect_def)
  have 3: "fire (Ev_Shutdown OkStatus Returns) at_rest = Inr at_rest"
    by (simp add: fire_def at_rest_def timed_out_def handshaking_def Shutdown_def lift_def
        effect_def)
  have 4: "run [] at_rest = Inr at_rest" by simp
  from no_handshaker_call_once_shut_down [OF story_handshaking story_timer 1]
    no_handshaker_call_once_shut_down [OF story_timed_out 2 story_rest]
    no_handshaker_call_once_shut_down [OF story_at_rest 3 4]
  show ?thesis
    by (simp add: sent_def at_rest_def timed_out_def handshaking_def in_progress_def)
qed

text \<open>
  Claim C1 fails as stated: when the handshaker calls its continuation before its
  \<^verbatim>\<open>DoHandshake\<close> returns, the continuation blocks on \<^verbatim>\<open>mu_\<close>, which its own thread
  holds. After the deadline task and a \<^verbatim>\<open>Shutdown\<close> of the caller, the callback requested
  once has not been called, no closure is posted and no continuation is outstanding.
\<close>

theorem inline_completion_blocks_on_done:
  "run inline_story start = Inr stuck \<and> requested 7 inline_story = 1 \<and>
   invoked 7 stuck = 0 \<and> queued 7 stuck = 0 \<and> posted (engine stuck) = [] \<and>
   outstanding stuck = 0 \<and> deadlocked stuck"
  using story_stuck
  by (simp add: requested_def invoked_def queued_def inline_story_def stuck_def handshaking_def)

text \<open>
  Claim C1, amended. In every world a run reaches:
  \<^item> a callback is never called, posted or held more often than it was requested;
  \<^item> if no handshaker has called its continuation from inside the manager's call on
    it, the manager is not deadlocked;
  \<^item> in a world that is not deadlocked, the calls of a callback, the posted closures
    that hold it and the manager's own hold add up to the number of requests, and the
    manager holds it only while a continuation is outstanding; so with no continuation
    outstanding and an empty queue the callback has been called exactly once per
    request. The outstanding continuation can be called with any status: the call
    either posts the terminal closure with the manager's callback or invokes the next
    handshaker, as the condition of the terminal branch says. And a world at rest, where
    the callback has been called exactly once per request, can be reached;
  \<^item> every posted closure can be run by the engine, and running it calls its callback
    once and takes it from the queue;
  \<^item> an event fails only where the environment has nothing to run, or at the
    \<^verbatim>\<open>CHECK_EQ\<close> of \<^verbatim>\<open>DoHandshake\<close>;
  \<^item> every post of the terminal closure comes directly after the cancellation of the
    deadline timer armed last;
  \<^item> in a deadlocked world the manager holds a callback, and whatever happens next it
    goes on holding it and nothing more is posted.
\<close>

theorem on_done_exactly_once:
  assumes "run evs start = Inr w"
  shows "invoked cb w + queued cb w + held cb w \<le> requested cb evs \<and>
         ((\<forall>e \<in> set evs. reaction_of e = Returns) \<longrightarrow> \<not> deadlocked w) \<and>
         (\<not> deadlocked w \<longrightarrow>
            invoked cb w + queued cb w + held cb w = requested cb evs \<and>
            (held cb w = 1 \<longrightarrow> outstanding w = 1) \<and>
            (outstanding w = 0 \<and> posted (engine w) = [] \<longrightarrow> invoked cb w = requested cb evs) \<and>
            (outstanding w = 1 \<longrightarrow>
               (\<forall>a st. \<exists>w'. fire (Ev_Complete a st Returns) w = Inr w' \<and> \<not> deadlocked w' \<and>
                  (if \<not> ok st \<or> is_shutdown (mgr w) \<or> exit_early a \<or>
                      index (mgr w) = length (handshakers (mgr w))
                   then outstanding w' = 0 \<and>
                        posted (engine w') = posted (engine w) @
                          [Terminal_closure (on_handshake_done (mgr w))
                             (if ok st then (if is_shutdown (mgr w)
                                             then Failure (ErrorStatus ''handshaker shutdown'')
                                             else Args_ptr)
                              else Failure st)]
                   else outstanding w' = 1 \<and> index (mgr w') = Suc (index (mgr w)) \<and>
                        posted (engine w') = posted (engine w)))) \<and>
            (\<exists>evs' w'. requested cb evs' = 0 \<and> run evs' w = Inr w' \<and> \<not> deadlocked w' \<and>
               outstanding w' = 0 \<and> posted (engine w') = [] \<and>
               invoked cb w' = requested cb evs)) \<and>
         (\<forall>k < length (posted (engine w)).
            \<exists>c res w'. posted (engine w) ! k = Terminal_closure (Some c) res \<and>
              fire (Ev_Exec k) w = Inr w' \<and>
              history w' = history w @
                [ExecCtx_enter, Call_on_handshake_done c res, Destroy_callback c, ExecCtx_exit] \<and>
              posted (engine w') =
                take k (posted (engine w)) @ drop (Suc k) (posted (engine w))) \<and>
         (\<forall>e f. fire e w = Inl f \<longrightarrow>
            (f = Check_failed \<and> (\<exists>ep dl acc c r. e = Ev_DoHandshake ep dl acc c r) \<and>
               index (mgr w) \<noteq> 0) \<or>
            (f = No_continuation \<and> (\<exists>a st r. e = Ev_Complete a st r) \<and> outstanding w = 0) \<or>
            (f = No_such_task \<and>
               ((\<exists>r. e = Ev_Timer r) \<and> armed w = 0 \<or>
                (\<exists>k. e = Ev_Exec k \<and> length (posted (engine w)) \<le> k)))) \<and>
         (\<forall>xs c ys. history w = xs @ Engine_Run c # ys \<longrightarrow>
            (\<exists>pre h. xs = pre @ [Engine_Cancel (Some h)] \<and> latest_armed pre = Some h)) \<and>
         (deadlocked w \<longrightarrow>
            on_handshake_done (mgr w) \<noteq> None \<and>
            (\<forall>evs' w'. run evs' w = Inr w' \<longrightarrow>
               deadlocked w' \<and> on_handshake_done (mgr w') = on_handshake_done (mgr w) \<and>
               posts (history w') = posts (history w)))"
proof -
  from sound_run [OF assms sound_start] have w: "sound w" .
  have rest: "invoked cb v = total cb v"
    if "sound v" "\<not> deadlocked v" "outstanding v = 0" "posted (engine v) = []" for v
    using that by (auto simp: total_def queued_def held_def sound_def)
  from account_run(1) [OF assms sound_start, of cb]
  have "total cb w \<le> requested cb evs" by (simp add: total_start)
  then have c1: "invoked cb w + queued cb w + held cb w \<le> requested cb evs"
    by (simp add: total_def)
  have c2: "(\<forall>e \<in> set evs. reaction_of e = Returns) \<longrightarrow> \<not> deadlocked w"
    using calm_run [OF assms] by (auto simp: start_def)
  have c3: "\<not> deadlocked w \<longrightarrow>
            invoked cb w + queued cb w + held cb w = requested cb evs \<and>
            (held cb w = 1 \<longrightarrow> outstanding w = 1) \<and>
            (outstanding w = 0 \<and> posted (engine w) = [] \<longrightarrow> invoked cb w = requested cb evs) \<and>
            (outstanding w = 1 \<longrightarrow>
               (\<forall>a st. \<exists>w'. fire (Ev_Complete a st Returns) w = Inr w' \<and> \<not> deadlocked w' \<and>
                  (if \<not> ok st \<or> is_shutdown (mgr w) \<or> exit_early a \<or>
                      index (mgr w) = length (handshakers (mgr w))
                   then outstanding w' = 0 \<and>
                        posted (engine w') = posted (engine w) @
                          [Terminal_closure (on_handshake_done (mgr w))
                             (if ok st then (if is_shutdown (mgr w)
                                             then Failure (ErrorStatus ''handshaker shutdown'')
                                             else Args_ptr)
                              else Failure st)]
                   else outstanding w' = 1 \<and> index (mgr w') = Suc (index (mgr w)) \<and>
                        posted (engine w') = posted (engine w)))) \<and>
            (\<exists>evs' w'. requested cb evs' = 0 \<and> run evs' w = Inr w' \<and> \<not> deadlocked w' \<and>
               outstanding w' = 0 \<and> posted (engine w') = [] \<and>
               invoked cb w' = requested cb evs)"
  proof
    assume nd: "\<not> deadlocked w"
    from account_run(2) [OF assms sound_start nd, of cb]
    have acc: "total cb w = requested cb evs" by (simp add: total_start)
    then have 1: "invoked cb w + queued cb w + held cb w = requested cb evs"
      by (simp add: total_def)
    from w nd have 2: "held cb w = 1 \<longrightarrow> outstanding w = 1"
      by (auto simp: held_def sound_def)
    from rest [OF w nd] acc
    have 3: "outstanding w = 0 \<and> posted (engine w) = [] \<longrightarrow> invoked cb w = requested cb evs"
      by simp
    note 4 = progress_complete [OF w nd]
    from rest_reachable [OF w nd, of cb] obtain evs' w' where
      more: "requested cb evs' = 0" "run evs' w = Inr w'" "\<not> deadlocked w'"
        "outstanding w' = 0" "posted (engine w') = []" by blast
    from sound_run [OF more(2) w] have w': "sound w'" .
    from account_run(2) [OF more(2) w more(3), of cb] more(1) acc
    have "total cb w' = requested cb evs" by simp
    with rest [OF w' more(3,4,5)] have "invoked cb w' = requested cb evs" by simp
    with more have 5: "\<exists>evs' w'. requested cb evs' = 0 \<and> run evs' w = Inr w' \<and>
        \<not> deadlocked w' \<and> outstanding w' = 0 \<and> posted (engine w') = [] \<and>
        invoked cb w' = requested cb evs"
      by blast
    from 1 2 3 4 5 show "invoked cb w + queued cb w + held cb w = requested cb evs \<and>
            (held cb w = 1 \<longrightarrow> outstanding w = 1) \<and>
            (outstanding w = 0 \<and> posted (engine w) = [] \<longrightarrow> invoked cb w = requested cb evs) \<and>
            (outstanding w = 1 \<longrightarrow>
               (\<forall>a st. \<exists>w'. fire (Ev_Complete a st Returns) w = Inr w' \<and> \<not> deadlocked w' \<and>
                  (if \<not> ok st \<or> is_shutdown (mgr w) \<or> exit_early a \<or>
                      index (mgr w) = length (handshakers (mgr w))
                   then outstanding w' = 0 \<and>
                        posted (engine w') = posted (engine w) @
                          [Terminal_closure (on_handshake_done (mgr w))
                             (if ok st then (if is_shutdown (mgr w)
                                             then Failure (ErrorStatus ''handshaker shutdown'')
                                             else Args_ptr)
                              else Failure st)]
                   else outstanding w' = 1 \<and> index (mgr w') = Suc (index (mgr w)) \<and>
                        posted (engine w') = posted (engine w)))) \<and>
            (\<exists>evs' w'. requested cb evs' = 0 \<and> run evs' w = Inr w' \<and> \<not> deadlocked w' \<and>
               outstanding w' = 0 \<and> posted (engine w') = [] \<and>
               invoked cb w' = requested cb evs)"
      by (intro conjI impI allI) blast+
  qed
  have c4: "\<forall>k < length (posted (engine w)).
            \<exists>c res w'. posted (engine w) ! k = Terminal_closure (Some c) res \<and>
              fire (Ev_Exec k) w = Inr w' \<and>
              history w' = history w @
                [ExecCtx_enter, Call_on_handshake_done c res, Destroy_callback c, ExecCtx_exit] \<and>
              posted (engine w') =
                take k (posted (engine w)) @ drop (Suc k) (posted (engine w))"
    using progress_exec [OF w] by blast
  have c5: "\<forall>e f. fire e w = Inl f \<longrightarrow>
            (f = Check_failed \<and> (\<exists>ep dl acc c r. e = Ev_DoHandshake ep dl acc c r) \<and>
               index (mgr w) \<noteq> 0) \<or>
            (f = No_continuation \<and> (\<exists>a st r. e = Ev_Complete a st r) \<and> outstanding w = 0) \<or>
            (f = No_such_task \<and>
               ((\<exists>r. e = Ev_Timer r) \<and> armed w = 0 \<or>
                (\<exists>k. e = Ev_Exec k \<and> length (posted (engine w)) \<le> k)))"
    using fire_faults [OF w] by blast
  from guarded_run [OF assms sound_start guarded_start]
  have c6: "\<forall>xs c ys. history w = xs @ Engine_Run c # ys \<longrightarrow>
            (\<exists>pre h. xs = pre @ [Engine_Cancel (Some h)] \<and> latest_armed pre = Some h)"
    by (simp add: guarded_def)
  have c7: "deadlocked w \<longrightarrow>
            on_handshake_done (mgr w) \<noteq> None \<and>
            (\<forall>evs' w'. run evs' w = Inr w' \<longrightarrow>
               deadlocked w' \<and> on_handshake_done (mgr w') = on_handshake_done (mgr w) \<and>
               posts (history w') = posts (history w))"
  proof
    assume d: "deadlocked w"
    with w have "on_handshake_done (mgr w) \<noteq> None" by (simp add: sound_def)
    with stuck_run d show "on_handshake_done (mgr w) \<noteq> None \<and>
            (\<forall>evs' w'. run evs' w = Inr w' \<longrightarrow>
               deadlocked w' \<and> on_handshake_done (mgr w') = on_handshake_done (mgr w) \<and>
               posts (history w') = posts (history w))" by blast
  qed
  from c1 c2 c3 c4 c5 c6 c7 show ?thesis by - (intro conjI; assumption)
qed

theorem on_done_exactly_once_witness:
  "run timeout_story start = Inr at_rest \<and> requested 7 timeout_story = 1 \<and>
   \<not> deadlocked at_rest \<and> outstanding at_rest = 0 \<and> posted (engine at_rest) = [] \<and>
   invoked 7 at_rest = 1 \<and>
   run inline_story start = Inr stuck \<and> deadlocked stuck \<and>
   on_handshake_done (mgr stuck) \<noteq> None"
  using story_at_rest on_done_exactly_once [OF story_at_rest, of 7]
    story_stuck on_done_exactly_once [OF story_stuck, of 7]
  by (simp add: requested_def timeout_story_def at_rest_def timed_out_def handshaking_def
      stuck_def)

end
